theory Spec2Isabelle
  imports Main "HOL-Library.Word" "HOL-Library.Log_Nat"
begin

unbundle bit_operations_syntax

section \<open>The Fibonacci character device (fibdrv.c)\<close>

text \<open>
  The driver computes Fibonacci numbers on decimal big numbers with one of three
  strategies, chosen by a write to the device, at the index given by the file position.
  The C types are kept: \<open>long long\<close> and \<open>loff_t\<close> are 64-bit words, \<open>int\<close> is a
  32-bit word, a byte of the user buffer is an 8-bit word. Signed comparisons are
  \<open>\<le>s\<close> and \<open><s\<close>; the kernel is built with wrapping signed arithmetic, so \<open>+\<close> and
  \<open>-\<close> on \<open>loff_t\<close> wrap.
\<close>

subsection \<open>Strategy selection: \<open>fib_write\<close>\<close>

text \<open>The function pointer \<open>fib_sequence\<close> points to one of the three strategies, or is
  still the null pointer of a zero-initialised global.\<close>

datatype strategy = FIB_DP | FIB_DOUB | FIB_DOUB_CLZ

text \<open>\<open>fib_write\<close> copies one byte from the user buffer into \<open>tmp_buf[0]\<close> and switches
  on it. The argument \<open>byte\<close> is that byte; \<open>sz\<close> is the size argument, which the
  function never reads. The result is the new value of \<open>fib_sequence\<close> and the
  returned \<open>ssize_t\<close>.\<close>

definition fib_write :: "strategy option \<Rightarrow> 8 word \<Rightarrow> 64 word \<Rightarrow> strategy option \<times> 64 word" where
  "fib_write fib_sequence byte sz =
     ((if byte = 0 then Some FIB_DP
       else if byte = 1 then Some FIB_DOUB
       else if byte = 2 then Some FIB_DOUB_CLZ
       else fib_sequence), 1)"

subsection \<open>Seeking: \<open>fib_device_lseek\<close>\<close>

definition MAX_LENGTH :: "64 word" where
  "MAX_LENGTH = 150"

record file_t =
  f_pos :: "64 word"

definition fib_device_lseek :: "file_t \<Rightarrow> 64 word \<Rightarrow> 32 word \<Rightarrow> file_t \<times> 64 word" where
  "fib_device_lseek fl offset orig =
     (let new_pos = (if orig = 0 then offset
                     else if orig = 1 then f_pos fl + offset
                     else if orig = 2 then MAX_LENGTH - offset
                     else 0);
          new_pos = (if MAX_LENGTH <s new_pos then MAX_LENGTH else new_pos);
          new_pos = (if new_pos <s 0 then 0 else new_pos)
      in (fl\<lparr>f_pos := new_pos\<rparr>, new_pos))"

text \<open>The two clamping statements of \<open>fib_device_lseek\<close>, written once more as a
  function of the position computed by the switch.\<close>

definition clamp_pos :: "64 word \<Rightarrow> 64 word" where
  "clamp_pos p = (if 150 <s p then 150 else if p <s 0 then 0 else p)"

section \<open>Big numbers (bn.h)\<close>

text \<open>
  \<open>fibdrv.c\<close> includes \<open>bn.h\<close>, which is not part of the sources at hand. The driver
  uses from it the type \<open>bn_t\<close> with the fields \<open>num_digits\<close> and \<open>digits\<close>, the
  constant \<open>MAX_DIGITS\<close> and the functions \<open>bn_init\<close>, \<open>bn_add\<close>, \<open>bn_sub\<close> and
  \<open>bn_mul\<close>. They are modelled from the specification. The capacity \<open>MAX_DIGITS\<close>,
  whose value the specification does not give, is the parameter \<open>cap\<close> of everything
  that depends on it.
\<close>

text \<open>Modelled from the spec: the type \<open>bn_t\<close> of \<open>bn.h\<close>, a sequence of decimal digits,
  least significant first, with the count of significant digits. The list \<open>digits\<close> holds
  the cells \<open>0 .. num_digits - 1\<close> of the array; the cells beyond carry no value.\<close>

record bn_t =
  num_digits :: nat
  digits :: "nat list"

text \<open>Modelled from the spec: the numeric value of a digit sequence, least significant
  digit first.\<close>

fun dval :: "nat list \<Rightarrow> nat" where
  "dval [] = 0"
| "dval (d # ds) = d + 10 * dval ds"

text \<open>Modelled from the spec: the numeric value of a big number.\<close>

definition bn_val :: "bn_t \<Rightarrow> nat" where
  "bn_val a = dval (digits a)"

text \<open>Modelled from the spec: the decomposition of a small non-negative integer into its
  decimal digits, least significant first, at least one digit.\<close>

fun nat_digits :: "nat \<Rightarrow> nat list" where
  "nat_digits n = (if n < 10 then [n] else (n mod 10) # nat_digits (n div 10))"

declare nat_digits.simps [simp del]

text \<open>Modelled from the spec: trimming of the most significant zero digits;
  \<open>strip_zeros\<close> removes all of them.\<close>

fun strip_zeros :: "nat list \<Rightarrow> nat list" where
  "strip_zeros [] = []"
| "strip_zeros (d # ds) = (let t = strip_zeros ds in if t = [] \<and> d = 0 then [] else d # t)"

text \<open>Modelled from the spec: how an operation leaves its result in a \<open>bn_t\<close>. The
  digits that fit the \<open>cap\<close> cells of the array are kept (the silent truncation of the
  spec), the most significant zeros are trimmed, and the value zero keeps its single
  digit 0.\<close>

definition bn_store :: "nat \<Rightarrow> nat list \<Rightarrow> bn_t" where
  "bn_store cap ds =
     (let t = strip_zeros (take cap ds);
          t = (if t = [] then [0] else t)
      in \<lparr>num_digits = length t, digits = t\<rparr>)"

text \<open>Modelled from the spec: \<open>bn_init\<close> of \<open>bn.h\<close>.\<close>

definition bn_init :: "nat \<Rightarrow> nat \<Rightarrow> bn_t" where
  "bn_init cap v = bn_store cap (nat_digits v)"

text \<open>Modelled from the spec: digit-wise addition with carry propagation. The result has
  the length of the longer operand, and one digit more if a carry is left.\<close>

fun add_digits :: "nat list \<Rightarrow> nat list \<Rightarrow> nat \<Rightarrow> nat list" where
  "add_digits [] [] c = (if c = 0 then [] else [c])"
| "add_digits (x # xs) [] c = ((x + c) mod 10) # add_digits xs [] ((x + c) div 10)"
| "add_digits [] (y # ys) c = ((y + c) mod 10) # add_digits [] ys ((y + c) div 10)"
| "add_digits (x # xs) (y # ys) c =
     ((x + y + c) mod 10) # add_digits xs ys ((x + y + c) div 10)"

text \<open>Modelled from the spec: \<open>bn_add\<close> of \<open>bn.h\<close>.\<close>

definition bn_add :: "nat \<Rightarrow> bn_t \<Rightarrow> bn_t \<Rightarrow> bn_t" where
  "bn_add cap a b = bn_store cap (add_digits (digits a) (digits b) 0)"

text \<open>What can go wrong in the driver's computations: \<open>bn_sub\<close> called with a minuend
  smaller than the subtrahend, \<open>__builtin_clz\<close> called with 0, an index for which the
  array of \<open>fib_dp\<close> or its loop counter is not defined, a read before any strategy was
  chosen.\<close>

datatype error = Sub_Precondition | Clz_Undefined | Index_Range | Null_Strategy

text \<open>Modelled from the spec: digit-wise subtraction with borrow propagation; \<open>bw\<close> is
  the borrow.\<close>

fun sub_digits :: "nat list \<Rightarrow> nat list \<Rightarrow> nat \<Rightarrow> nat list" where
  "sub_digits [] ys bw = []"
| "sub_digits (x # xs) [] bw =
     (if bw \<le> x then (x - bw) # sub_digits xs [] 0
      else (x + 10 - bw) # sub_digits xs [] 1)"
| "sub_digits (x # xs) (y # ys) bw =
     (if y + bw \<le> x then (x - y - bw) # sub_digits xs ys 0
      else (x + 10 - y - bw) # sub_digits xs ys 1)"

text \<open>Modelled from the spec: \<open>bn_sub\<close> of \<open>bn.h\<close>. Its precondition is that the minuend
  is not smaller than the subtrahend; where it is violated the result is not defined,
  which is the error \<open>Sub_Precondition\<close>.\<close>

definition bn_sub :: "nat \<Rightarrow> bn_t \<Rightarrow> bn_t \<Rightarrow> error + bn_t" where
  "bn_sub cap a b =
     (if bn_val a < bn_val b then Inl Sub_Precondition
      else Inr (bn_store cap (sub_digits (digits a) (digits b) 0)))"

text \<open>Modelled from the spec: one row of the schoolbook multiplication, the digit \<open>x\<close>
  times the second operand, with the running carry \<open>c\<close>.\<close>

fun mul_digit :: "nat \<Rightarrow> nat list \<Rightarrow> nat \<Rightarrow> nat list" where
  "mul_digit x [] c = [c]"
| "mul_digit x (y # ys) c = ((x * y + c) mod 10) # mul_digit x ys ((x * y + c) div 10)"

text \<open>Modelled from the spec: schoolbook multiplication of two digit sequences. Each
  digit of the first operand gives a row, and the rows are added up, each shifted by one
  more digit.\<close>

fun mul_digits :: "nat list \<Rightarrow> nat list \<Rightarrow> nat list" where
  "mul_digits [] ys = []"
| "mul_digits (x # xs) ys = add_digits (mul_digit x ys 0) (0 # mul_digits xs ys) 0"

text \<open>Modelled from the spec: \<open>bn_mul\<close> of \<open>bn.h\<close>. The spec trims one leading zero of
  the product; for two operands that are not zero the product has no more than one,
  and \<open>bn_store\<close> trims it.\<close>

definition bn_mul :: "nat \<Rightarrow> bn_t \<Rightarrow> bn_t \<Rightarrow> bn_t" where
  "bn_mul cap a b = bn_store cap (mul_digits (digits a) (digits b))"

section \<open>The three strategies\<close>

subsection \<open>\<open>fib_dp\<close>\<close>

text \<open>The array \<open>f\<close> of \<open>k + 2\<close> cells is not initialised; \<open>bn_uninit\<close> stands for the
  content of a cell before it is written. Every cell is written before it is read.\<close>

definition bn_uninit :: bn_t where
  "bn_uninit = \<lparr>num_digits = 0, digits = []\<rparr>"

text \<open>The loop \<open>for (int i = 2; i <= k; i++)\<close>.\<close>

function fib_dp_loop :: "nat \<Rightarrow> int \<Rightarrow> int \<Rightarrow> bn_t list \<Rightarrow> bn_t list" where
  "fib_dp_loop cap k i f =
     (if i \<le> k
      then fib_dp_loop cap k (i + 1)
             (f[nat i := bn_add cap (f ! nat (i - 1)) (f ! nat (i - 2))])
      else f)"
  by pat_completeness auto

termination
  by (relation "measure (\<lambda>(cap, k, i, f). nat (k + 1 - i))") auto

declare fib_dp_loop.simps [simp del]

text \<open>For a negative \<open>k\<close> the array is too short for \<open>f[0]\<close> and \<open>f[1]\<close>, and from
  \<open>k = INT_MAX\<close> on the counter \<open>i\<close> overflows: there the function is not defined.\<close>

definition fib_dp :: "nat \<Rightarrow> 64 word \<Rightarrow> error + bn_t" where
  "fib_dp cap k =
     (if sint k < 0 \<or> 2 ^ 31 - 1 \<le> sint k then Inl Index_Range
      else
        (let f = replicate (nat (sint k + 2)) bn_uninit;
             f = f[0 := bn_init cap 0];
             f = f[1 := bn_init cap 1];
             f = fib_dp_loop cap (sint k) 2 f
         in Inr (f ! nat (sint k))))"

subsection \<open>\<open>fib_double\<close> and \<open>fib_double_clz\<close>\<close>

text \<open>The body of the loop of both functions, at bit position \<open>i\<close>, on the pair
  \<open>(a, b)\<close>. The test \<open>k & (1ull << i)\<close> is made on the 64 bits of \<open>k\<close>.\<close>

definition doubling_step :: "nat \<Rightarrow> 64 word \<Rightarrow> nat \<Rightarrow> bn_t \<times> bn_t \<Rightarrow> error + bn_t \<times> bn_t" where
  "doubling_step cap k i ab =
     (let a = fst ab; b = snd ab;
          tmp1 = bn_add cap b b
      in case bn_sub cap tmp1 a of
           Inl e \<Rightarrow> Inl e
         | Inr tmp2 \<Rightarrow>
             (let t1 = bn_mul cap a tmp2;
                  tmp1 = bn_mul cap a a;
                  tmp2 = bn_mul cap b b;
                  t2 = bn_add cap tmp1 tmp2;
                  a = t1;
                  b = t2
              in if k AND push_bit i 1 \<noteq> 0 then Inr (b, bn_add cap a b) else Inr (a, b)))"

text \<open>The state of the loop is the pair \<open>(a, b)\<close>, or the error of a \<open>bn_sub\<close> whose
  precondition was violated (from then on the big numbers have no defined content),
  together with the number of iterations executed so far. The control flow of the loop
  does not depend on the big numbers, so the iterations are counted in both cases.\<close>

definition doubling_body ::
  "nat \<Rightarrow> 64 word \<Rightarrow> nat \<Rightarrow> (error + bn_t \<times> bn_t) \<times> nat \<Rightarrow> (error + bn_t \<times> bn_t) \<times> nat" where
  "doubling_body cap k i st =
     (case st of
        (Inl e, n) \<Rightarrow> (Inl e, Suc n)
      | (Inr ab, n) \<Rightarrow> (doubling_step cap k i ab, Suc n))"

text \<open>The loop \<open>for (int i = start; i >= 0; --i)\<close>, for a \<open>start\<close> that is not negative.\<close>

definition doubling_loop ::
  "nat \<Rightarrow> 64 word \<Rightarrow> nat \<Rightarrow> (error + bn_t \<times> bn_t) \<times> nat \<Rightarrow> (error + bn_t \<times> bn_t) \<times> nat" where
  "doubling_loop cap k start st = fold (doubling_body cap k) (rev [0..<Suc start]) st"

text \<open>\<open>fib_double\<close>, with the number of loop iterations it executed.\<close>

definition fib_double_run :: "nat \<Rightarrow> 64 word \<Rightarrow> (error + bn_t) \<times> nat" where
  "fib_double_run cap k =
     (let a = bn_init cap 0; b = bn_init cap 1
      in if k = 0 then (Inr a, 0)
         else if k = 1 then (Inr b, 0)
         else (case doubling_loop cap k 31 (Inr (a, b), 0) of
                 (Inl e, n) \<Rightarrow> (Inl e, n)
               | (Inr ab, n) \<Rightarrow> (Inr (fst ab), n)))"

definition fib_double :: "nat \<Rightarrow> 64 word \<Rightarrow> error + bn_t" where
  "fib_double cap k = fst (fib_double_run cap k)"

text \<open>\<open>__builtin_clz\<close> of the compiler takes an \<open>unsigned int\<close> and returns the number of
  zero bits above its highest set bit; its result for 0 is not defined.\<close>

fun clz_scan :: "nat \<Rightarrow> 32 word \<Rightarrow> nat" where
  "clz_scan 0 x = 0"
| "clz_scan (Suc n) x = (if bit x n then 0 else Suc (clz_scan n x))"

definition builtin_clz :: "32 word \<Rightarrow> nat option" where
  "builtin_clz x = (if x = 0 then None else Some (clz_scan 32 x))"

text \<open>\<open>fib_double_clz\<close>, with the number of loop iterations it executed. The argument of
  \<open>__builtin_clz\<close> is \<open>k\<close> converted to \<open>unsigned int\<close>, its low 32 bits.\<close>

definition fib_double_clz_run :: "nat \<Rightarrow> 64 word \<Rightarrow> error + (error + bn_t) \<times> nat" where
  "fib_double_clz_run cap k =
     (let a = bn_init cap 0; b = bn_init cap 1
      in if k = 0 then Inr (Inr a, 0)
         else if k = 1 then Inr (Inr b, 0)
         else (case builtin_clz (ucast k) of
                 None \<Rightarrow> Inl Clz_Undefined
               | Some z \<Rightarrow>
                   (case doubling_loop cap k (31 - z) (Inr (a, b), 0) of
                      (Inl e, n) \<Rightarrow> Inr (Inl e, n)
                    | (Inr ab, n) \<Rightarrow> Inr (Inr (fst ab), n))))"

definition fib_double_clz :: "nat \<Rightarrow> 64 word \<Rightarrow> error + bn_t" where
  "fib_double_clz cap k =
     (case fib_double_clz_run cap k of Inl e \<Rightarrow> Inl e | Inr (r, n) \<Rightarrow> r)"

section \<open>Reading: \<open>fib_read\<close>\<close>

text \<open>The call through the function pointer \<open>fib_sequence\<close>.\<close>

definition fib_sequence_call :: "nat \<Rightarrow> strategy \<Rightarrow> 64 word \<Rightarrow> error + bn_t" where
  "fib_sequence_call cap s k =
     (case s of
        FIB_DP \<Rightarrow> fib_dp cap k
      | FIB_DOUB \<Rightarrow> fib_double cap k
      | FIB_DOUB_CLZ \<Rightarrow> fib_double_clz cap k)"

definition NUL :: char where
  "NUL = CHR 0x00"

text \<open>The ASCII character of a decimal digit, from the table of digits.\<close>

definition digit_char :: "nat \<Rightarrow> char" where
  "digit_char d = ''0123456789'' ! d"

text \<open>The conversion \<open>%d\<close> of a value that is not negative.\<close>

fun print_d :: "nat \<Rightarrow> string" where
  "print_d n =
     (if n < 10 then [digit_char n]
      else print_d (n div 10) @ [digit_char (n mod 10)])"

declare print_d.simps [simp del]

text \<open>The kernel's \<open>snprintf(&buf[pos], sz, "%d", v)\<close>: it writes at most \<open>sz - 1\<close>
  characters and a terminating zero byte, nothing for \<open>sz = 0\<close>, and returns the number
  of characters the conversion has. A negative \<open>sz\<close> becomes a \<open>size_t\<close> beyond
  \<open>INT_MAX\<close>, for which the kernel writes nothing and returns 0.\<close>

definition snprintf_d :: "char list \<Rightarrow> nat \<Rightarrow> int \<Rightarrow> nat \<Rightarrow> char list \<times> nat" where
  "snprintf_d buf pos sz v =
     (let s = print_d v
      in if sz < 0 then (buf, 0)
         else if sz = 0 then (buf, length s)
         else (let w = take (nat sz - 1) s @ [NUL]
               in (take pos buf @ w @ drop (pos + length w) buf, length s)))"

text \<open>The cell \<open>digits[j]\<close> of a big number.\<close>

definition digit_cell :: "bn_t \<Rightarrow> nat \<Rightarrow> nat" where
  "digit_cell r j = (if j < length (digits r) then digits r ! j else 0)"

text \<open>One iteration of the formatting loop of \<open>fib_read\<close>, on the buffer \<open>tmp\<close> and
  \<open>index\<close>.\<close>

definition fib_read_step :: "nat \<Rightarrow> bn_t \<Rightarrow> nat \<Rightarrow> char list \<times> nat \<Rightarrow> char list \<times> nat" where
  "fib_read_step cap result i st =
     (case st of
        (tmp, index) \<Rightarrow>
          (case snprintf_d tmp index (int cap - int index)
                  (digit_cell result (num_digits result - i - 1)) of
             (tmp', n) \<Rightarrow> (tmp', index + n)))"

text \<open>The \<open>MAX_DIGITS\<close> bytes of \<open>tmp\<close> that \<open>fib_read\<close> copies to the user.\<close>

definition fib_read_tmp :: "nat \<Rightarrow> bn_t \<Rightarrow> char list" where
  "fib_read_tmp cap result =
     fst (fold (fib_read_step cap result) [0..<num_digits result] (replicate cap NUL, 0))"

text \<open>\<open>fib_read\<close> calls the chosen strategy at the file position and formats the result.
  The value it returns, the time the computation took, is not modelled.\<close>

definition fib_read :: "nat \<Rightarrow> strategy option \<Rightarrow> 64 word \<Rightarrow> error + char list" where
  "fib_read cap fib_sequence offset =
     (case fib_sequence of
        None \<Rightarrow> Inl Null_Strategy
      | Some s \<Rightarrow>
          (case fib_sequence_call cap s offset of
             Inl e \<Rightarrow> Inl e
           | Inr result \<Rightarrow> Inr (fib_read_tmp cap result)))"

text \<open>The string a buffer holds: its bytes up to the first zero byte.\<close>

definition c_string :: "char list \<Rightarrow> string" where
  "c_string buf = takeWhile (\<lambda>c. c \<noteq> NUL) buf"

text \<open>The decimal string that a read at position \<open>offset\<close> hands to the user.\<close>

definition fib_read_string :: "nat \<Rightarrow> strategy option \<Rightarrow> 64 word \<Rightarrow> error + string" where
  "fib_read_string cap fib_sequence offset =
     (case fib_read cap fib_sequence offset of
        Inl e \<Rightarrow> Inl e
      | Inr buf \<Rightarrow> Inr (c_string buf))"

section \<open>Reference notions\<close>

text \<open>The Fibonacci numbers \<open>F(0) = 0\<close>, \<open>F(1) = 1\<close>, \<open>F(i) = F(i-1) + F(i-2)\<close>.\<close>

fun Fib :: "nat \<Rightarrow> nat" where
  "Fib 0 = 0"
| "Fib (Suc 0) = 1"
| "Fib (Suc (Suc n)) = Fib (Suc n) + Fib n"

text \<open>The big number in canonical form that stands for a natural number: its decimal
  digits without a leading zero, the single digit 0 for zero.\<close>

definition bn_of_nat :: "nat \<Rightarrow> bn_t" where
  "bn_of_nat n = \<lparr>num_digits = length (nat_digits n), digits = nat_digits n\<rparr>"

text \<open>Every cell is a decimal digit.\<close>

definition decimal :: "nat list \<Rightarrow> bool" where
  "decimal ds = list_all (\<lambda>d. d < 10) ds"

text \<open>The index a doubling strategy works on: the low 32 bits of \<open>k\<close>, the bits that
  the loops scan.\<close>

definition low32 :: "64 word \<Rightarrow> nat" where
  "low32 k = unat (ucast k :: 32 word)"

text \<open>The recurrence at index \<open>k\<close> for a strategy \<open>f\<close>: the three calls return, and the
  result at \<open>k\<close> is \<open>bn_add\<close> of the results at \<open>k - 1\<close> and \<open>k - 2\<close>.\<close>

definition recurrence_at :: "nat \<Rightarrow> (64 word \<Rightarrow> error + bn_t) \<Rightarrow> 64 word \<Rightarrow> bool" where
  "recurrence_at cap f k =
     (case (f k, f (k - 1), f (k - 2)) of
        (Inr r, Inr r1, Inr r2) \<Rightarrow> r = bn_add cap r1 r2
      | _ \<Rightarrow> False)"

text \<open>The number of loop iterations of the two doubling strategies; \<open>fib_double_clz\<close> has
  none where its loop bound is not defined.\<close>

definition fib_double_iters :: "nat \<Rightarrow> 64 word \<Rightarrow> nat" where
  "fib_double_iters cap k = snd (fib_double_run cap k)"

definition fib_double_clz_iters :: "nat \<Rightarrow> 64 word \<Rightarrow> nat option" where
  "fib_double_clz_iters cap k =
     (case fib_double_clz_run cap k of Inl e \<Rightarrow> None | Inr (r, n) \<Rightarrow> Some n)"

text \<open>The state in which the loop that started at bit position \<open>start\<close> enters the
  iteration for bit position \<open>i\<close>: the iterations for \<open>start\<close> down to \<open>i + 1\<close> have
  been executed.\<close>

definition entering :: "nat \<Rightarrow> 64 word \<Rightarrow> nat \<Rightarrow> nat \<Rightarrow> (error + bn_t \<times> bn_t) \<times> nat" where
  "entering cap k start i =
     fold (doubling_body cap k) (rev [Suc i..<Suc start])
       (Inr (bn_init cap 0, bn_init cap 1), 0)"

text \<open>The call \<open>bn_sub(&tmp2, &tmp1, &a)\<close> of an iteration entered in state \<open>st\<close> meets the
  precondition of \<open>bn_sub\<close>: the big numbers are defined and the minuend \<open>tmp1\<close>, which
  is \<open>bn_add\<close> of \<open>b\<close> and \<open>b\<close>, is not smaller than the subtrahend \<open>a\<close>.\<close>

definition sub_call_safe :: "nat \<Rightarrow> (error + bn_t \<times> bn_t) \<times> nat \<Rightarrow> bool" where
  "sub_call_safe cap st =
     (case fst st of
        Inl e \<Rightarrow> False
      | Inr ab \<Rightarrow> bn_val (fst ab) \<le> bn_val (bn_add cap (snd ab) (snd ab)))"

text \<open>A big number is in canonical form: it is the canonical big number of its value.\<close>

definition canonical :: "bn_t \<Rightarrow> bool" where
  "canonical r = (r = bn_of_nat (bn_val r))"

section \<open>Properties of the device layer\<close>

lemma clamp_pos_range: "0 \<le> sint (clamp_pos p) \<and> sint (clamp_pos p) \<le> 150"
  by (simp add: clamp_pos_def word_sless_alt)

lemma fib_device_lseek_clamp:
  "fib_device_lseek fl offset orig =
     (let p = clamp_pos (if orig = 0 then offset
                         else if orig = 1 then f_pos fl + offset
                         else if orig = 2 then 150 - offset
                         else 0)
      in (fl\<lparr>f_pos := p\<rparr>, p))"
  by (simp add: fib_device_lseek_def clamp_pos_def MAX_LENGTH_def Let_def word_sless_alt)

text \<open>
  Claim C9. A write whose first byte is not 0, 1 or 2 leaves the strategy selector
  \<open>fib_sequence\<close> as it was, and every write returns 1, whatever the byte and the size
  argument are.
\<close>

theorem fib_write_selector_robust:
  "(byte \<noteq> 0 \<and> byte \<noteq> 1 \<and> byte \<noteq> 2 \<longrightarrow> fst (fib_write fs byte sz) = fs)
   \<and> snd (fib_write fs byte sz) = 1"
  by (simp add: fib_write_def)

theorem fib_write_selector_robust_witness:
  "((7 :: 8 word) \<noteq> 0 \<and> (7 :: 8 word) \<noteq> 1 \<and> (7 :: 8 word) \<noteq> 2)
   \<and> fst (fib_write (Some FIB_DOUB) 7 0) = Some FIB_DOUB
   \<and> snd (fib_write (Some FIB_DOUB) 7 0) = 1"
  using fib_write_selector_robust [of 7 "Some FIB_DOUB" 0] by simp

text \<open>
  Claim C10. For every offset and every origin, the position returned by
  \<open>fib_device_lseek\<close> is the one stored in the file, and it lies between 0 and 150; an
  origin other than 0, 1 and 2 gives position 0; origin 2 (\<open>SEEK_END\<close>) clamps 150 minus
  the offset.
\<close>

theorem fib_device_lseek_clamped:
  "f_pos (fst (fib_device_lseek fl offset orig)) = snd (fib_device_lseek fl offset orig)
   \<and> 0 \<le> sint (snd (fib_device_lseek fl offset orig))
   \<and> sint (snd (fib_device_lseek fl offset orig)) \<le> 150
   \<and> (orig \<noteq> 0 \<and> orig \<noteq> 1 \<and> orig \<noteq> 2 \<longrightarrow> snd (fib_device_lseek fl offset orig) = 0)
   \<and> (orig = 2 \<longrightarrow> snd (fib_device_lseek fl offset orig) = clamp_pos (150 - offset))"
proof -
  have "0 \<le> sint (clamp_pos p) \<and> sint (clamp_pos p) \<le> 150" for p
    by (rule clamp_pos_range)
  moreover have "clamp_pos 0 = 0"
    by (simp add: clamp_pos_def word_sless_alt)
  ultimately show ?thesis
    by (simp add: fib_device_lseek_clamp Let_def)
qed

theorem fib_device_lseek_clamped_witness:
  "((5 :: 32 word) \<noteq> 0 \<and> (5 :: 32 word) \<noteq> 1 \<and> (5 :: 32 word) \<noteq> 2)
   \<and> snd (fib_device_lseek \<lparr>f_pos = 7\<rparr> 1000 5) = 0
   \<and> snd (fib_device_lseek \<lparr>f_pos = 7\<rparr> 30 2) = 120
   \<and> snd (fib_device_lseek \<lparr>f_pos = 7\<rparr> 1000 2) = 0
   \<and> snd (fib_device_lseek \<lparr>f_pos = 7\<rparr> 1000 1) = 150"
proof -
  have a: "snd (fib_device_lseek \<lparr>f_pos = 7\<rparr> 1000 5) = 0"
    using fib_device_lseek_clamped [of "\<lparr>f_pos = 7\<rparr>" 1000 5] by simp
  have b: "snd (fib_device_lseek \<lparr>f_pos = 7\<rparr> 30 2) = 120"
    using fib_device_lseek_clamped [of "\<lparr>f_pos = 7\<rparr>" 30 2]
    by (simp add: clamp_pos_def word_sless_alt)
  have c: "snd (fib_device_lseek \<lparr>f_pos = 7\<rparr> 1000 2) = 0"
    using fib_device_lseek_clamped [of "\<lparr>f_pos = 7\<rparr>" 1000 2]
    by (simp add: clamp_pos_def word_sless_alt)
  have d: "snd (fib_device_lseek \<lparr>f_pos = 7\<rparr> 1000 1) = 150"
    by (simp add: fib_device_lseek_clamp clamp_pos_def word_sless_alt)
  show ?thesis using a b c d by simp
qed

section \<open>Digit sequences and their values\<close>

lemma decimal_simps [simp]:
  "decimal []" "decimal (d # ds) = (d < 10 \<and> decimal ds)"
  by (simp_all add: decimal_def)

lemma decimal_nat_digits: "decimal (nat_digits n)"
  by (induction n rule: nat_digits.induct) (subst nat_digits.simps, simp)

lemma dval_nat_digits: "dval (nat_digits n) = n"
  by (induction n rule: nat_digits.induct) (subst nat_digits.simps, simp)

lemma nat_digits_step: "d < 10 \<Longrightarrow> 0 < v \<Longrightarrow> nat_digits (d + 10 * v) = d # nat_digits v"
  by (subst nat_digits.simps) simp

lemma strip_zeros_canonical:
  "decimal ds \<Longrightarrow> strip_zeros ds = (if dval ds = 0 then [] else nat_digits (dval ds))"
proof (induction ds)
  case Nil
  show ?case by simp
next
  case (Cons d ds)
  then have d: "d < 10" and ih: "strip_zeros ds = (if dval ds = 0 then [] else nat_digits (dval ds))"
    by simp_all
  show ?case
  proof (cases "dval ds = 0")
    case True
    then show ?thesis using d ih by (simp add: nat_digits.simps [of d])
  next
    case False
    then have "nat_digits (dval ds) \<noteq> []" by (subst nat_digits.simps) simp
    then show ?thesis using False d ih by (simp add: nat_digits_step)
  qed
qed

lemma decimal_take: "decimal ds \<Longrightarrow> decimal (take n ds)"
  by (induction ds arbitrary: n) (auto simp: take_Cons split: nat.splits)

lemma dval_bound: "decimal ds \<Longrightarrow> dval ds < 10 ^ length ds"
  by (induction ds) auto

lemma dval_take: "decimal ds \<Longrightarrow> dval ds < 10 ^ n \<Longrightarrow> dval (take n ds) = dval ds"
proof (induction ds arbitrary: n)
  case Nil
  show ?case by simp
next
  case (Cons d ds)
  show ?case
  proof (cases n)
    case 0
    then show ?thesis using Cons.prems by simp
  next
    case (Suc m)
    then have "dval ds < 10 ^ m" using Cons.prems by simp
    then show ?thesis using Cons Suc by simp
  qed
qed

lemma bn_store_canonical:
  assumes "decimal ds" and "dval ds < 10 ^ cap"
  shows "bn_store cap ds = bn_of_nat (dval ds)"
proof -
  have "strip_zeros (take cap ds) = (if dval ds = 0 then [] else nat_digits (dval ds))"
    using assms by (simp add: strip_zeros_canonical decimal_take dval_take)
  moreover have "nat_digits 0 = [0]" by (subst nat_digits.simps) simp
  moreover have "nat_digits v \<noteq> []" for v by (subst nat_digits.simps) simp
  ultimately show ?thesis by (simp add: bn_store_def bn_of_nat_def Let_def)
qed

lemma add_digits_val: "dval (add_digits xs ys c) = dval xs + dval ys + c"
  by (induction xs ys c rule: add_digits.induct) auto

lemma add_digits_decimal:
  "decimal xs \<Longrightarrow> decimal ys \<Longrightarrow> c < 10 \<Longrightarrow> decimal (add_digits xs ys c)"
  by (induction xs ys c rule: add_digits.induct) auto

lemma mul_digit_val: "dval (mul_digit x ys c) = x * dval ys + c"
  by (induction x ys c rule: mul_digit.induct) (auto simp: algebra_simps)

lemma mul_digit_decimal:
  "x < 10 \<Longrightarrow> decimal ys \<Longrightarrow> c < 10 \<Longrightarrow> decimal (mul_digit x ys c)"
proof (induction x ys c rule: mul_digit.induct)
  case (1 x c)
  then show ?case by simp
next
  case (2 x y ys c)
  then have "x * y \<le> 9 * 9" by (intro mult_mono) auto
  then have "(x * y + c) div 10 < 10" using 2 by simp
  then show ?case using 2 by simp
qed

lemma mul_digits_val: "dval (mul_digits xs ys) = dval xs * dval ys"
  by (induction xs ys rule: mul_digits.induct) (auto simp: add_digits_val mul_digit_val algebra_simps)

lemma mul_digits_decimal: "decimal xs \<Longrightarrow> decimal ys \<Longrightarrow> decimal (mul_digits xs ys)"
  by (induction xs ys rule: mul_digits.induct) (auto simp: add_digits_decimal mul_digit_decimal)

lemma sub_digits_decimal:
  "decimal xs \<Longrightarrow> decimal ys \<Longrightarrow> bw \<le> 1 \<Longrightarrow> decimal (sub_digits xs ys bw)"
  by (induction xs ys bw rule: sub_digits.induct) auto

lemma sub_digits_val:
  "decimal xs \<Longrightarrow> decimal ys \<Longrightarrow> bw \<le> 1 \<Longrightarrow> dval ys + bw \<le> dval xs \<Longrightarrow>
   dval (sub_digits xs ys bw) + dval ys + bw = dval xs"
proof (induction xs ys bw rule: sub_digits.induct)
  case (1 ys bw)
  then show ?case by simp
next
  case (2 x xs bw)
  then show ?case by (cases "bw \<le> x") auto
next
  case (3 x xs y ys bw)
  show ?case
  proof (cases "y + bw \<le> x")
    case True
    then have "dval ys + 0 \<le> dval xs" using 3(3-) by auto
    then show ?thesis using 3 True by auto
  next
    case False
    then have "dval ys + 1 \<le> dval xs" using 3(3-) by auto
    then show ?thesis using 3 False by auto
  qed
qed

section \<open>The big number operations compute on values\<close>

lemma digits_bn_of_nat [simp]: "digits (bn_of_nat n) = nat_digits n"
  and num_digits_bn_of_nat [simp]: "num_digits (bn_of_nat n) = length (nat_digits n)"
  by (simp_all add: bn_of_nat_def)

lemma bn_val_bn_of_nat [simp]: "bn_val (bn_of_nat n) = n"
  by (simp add: bn_val_def dval_nat_digits)

lemma bn_init_exact: "v < 10 ^ cap \<Longrightarrow> bn_init cap v = bn_of_nat v"
  by (simp add: bn_init_def bn_store_canonical decimal_nat_digits dval_nat_digits)

lemma bn_add_exact: "v + w < 10 ^ cap \<Longrightarrow> bn_add cap (bn_of_nat v) (bn_of_nat w) = bn_of_nat (v + w)"
  by (simp add: bn_add_def bn_store_canonical add_digits_decimal add_digits_val
      decimal_nat_digits dval_nat_digits)

lemma bn_mul_exact: "v * w < 10 ^ cap \<Longrightarrow> bn_mul cap (bn_of_nat v) (bn_of_nat w) = bn_of_nat (v * w)"
  by (simp add: bn_mul_def bn_store_canonical mul_digits_decimal mul_digits_val
      decimal_nat_digits dval_nat_digits)

lemma bn_sub_exact:
  assumes "w \<le> v" and "v < 10 ^ cap"
  shows "bn_sub cap (bn_of_nat v) (bn_of_nat w) = Inr (bn_of_nat (v - w))"
proof -
  have "dval (sub_digits (nat_digits v) (nat_digits w) 0) + dval (nat_digits w) + 0
          = dval (nat_digits v)"
    by (rule sub_digits_val) (use assms in \<open>simp_all add: decimal_nat_digits dval_nat_digits\<close>)
  then have v: "dval (sub_digits (nat_digits v) (nat_digits w) 0) = v - w"
    by (simp add: dval_nat_digits)
  have d: "decimal (sub_digits (nat_digits v) (nat_digits w) 0)"
    by (simp add: sub_digits_decimal decimal_nat_digits)
  have "bn_store cap (sub_digits (nat_digits v) (nat_digits w) 0) = bn_of_nat (v - w)"
    using bn_store_canonical [OF d] v assms by simp
  then show ?thesis using assms by (simp add: bn_sub_def)
qed

lemma bn_sub_error_iff: "bn_sub cap a b = Inl e \<longleftrightarrow> e = Sub_Precondition \<and> bn_val a < bn_val b"
  by (auto simp: bn_sub_def)

subsection \<open>Fibonacci identities\<close>

lemma Fib_add: "Fib (Suc (n + m)) = Fib (Suc n) * Fib (Suc m) + Fib n * Fib m"
  by (induction n rule: Fib.induct) (auto simp: algebra_simps)

lemma Fib_mono_Suc: "Fib n \<le> Fib (Suc n)"
  by (induction n rule: Fib.induct) auto

lemma Fib_mono: "m \<le> n \<Longrightarrow> Fib m \<le> Fib n"
  by (induction n) (auto simp: le_Suc_eq intro: order_trans [OF _ Fib_mono_Suc])

lemma Fib_double_odd: "Fib (Suc (2 * n)) = Fib n * Fib n + Fib (Suc n) * Fib (Suc n)"
  using Fib_add [of n n] by (simp add: mult_2)

lemma Fib_double_even: "Fib (2 * n) = Fib n * (2 * Fib (Suc n) - Fib n)"
proof (cases n)
  case 0
  then show ?thesis by simp
next
  case (Suc m)
  have "2 * n = Suc (n + m)" using Suc by simp
  then have "Fib (2 * n) = Fib (Suc (n + m))" by (simp only:)
  also have "\<dots> = Fib (Suc n) * Fib (Suc m) + Fib n * Fib m" by (rule Fib_add)
  also have "\<dots> = Fib n * (Fib (Suc n) + Fib m)" using Suc by (simp add: algebra_simps)
  also have "Fib (Suc n) + Fib m = 2 * Fib (Suc n) - Fib n" using Suc by simp
  finally show ?thesis .
qed

section \<open>One doubling step\<close>

lemma bit_test_low32:
  fixes k :: "64 word"
  assumes "i < 32"
  shows "(k AND push_bit i 1 \<noteq> 0) = odd (low32 k div 2 ^ i)"
proof -
  have "(k AND push_bit i 1 \<noteq> 0) = bit k i"
    by (simp add: bit_iff_and_push_bit_not_eq_0)
  also have "\<dots> = bit (ucast k :: 32 word) i"
    using assms by (simp add: bit_ucast_iff)
  also have "\<dots> = bit (unat (ucast k :: 32 word)) i"
    by (simp add: bit_unsigned_iff)
  also have "\<dots> = odd (low32 k div 2 ^ i)"
    by (simp add: bit_iff_odd low32_def)
  finally show ?thesis .
qed

lemma low32_less: "low32 k < 2 ^ 32"
  using unsigned_less [of "ucast k :: 32 word", where 'a = nat] by (simp add: low32_def)

lemma div_pow2_step: "(K::nat) div 2 ^ i = 2 * (K div 2 ^ Suc i) + (if odd (K div 2 ^ i) then 1 else 0)"
proof -
  have "K div (2 ^ i * 2) = (K div 2 ^ i) div 2"
    by (rule div_mult2_eq)
  then have "K div 2 ^ Suc i = (K div 2 ^ i) div 2"
    by (simp add: mult.commute)
  then show ?thesis by (auto elim: oddE)
qed

lemma doubling_step_Fib_tight:
  fixes k :: "64 word"
  assumes m: "m = 2 * n + (if k AND push_bit i 1 \<noteq> 0 then 1 else 0)"
    and cap1: "2 * Fib (Suc n) < 10 ^ cap"
    and cap2: "Fib (Suc m) < 10 ^ cap"
  shows "doubling_step cap k i (bn_of_nat (Fib n), bn_of_nat (Fib (Suc n)))
           = Inr (bn_of_nat (Fib m), bn_of_nat (Fib (Suc m)))"
proof -
  let ?a = "Fib n" and ?b = "Fib (Suc n)"
  have le: "Fib j \<le> Fib (Suc m)" if "j \<le> Suc m" for j
    using that by (rule Fib_mono)
  have lt: "v < 10 ^ cap" if "v \<le> Fib (Suc m)" for v
    using that cap2 by simp
  have n_le: "Suc (2 * n) \<le> Suc m" "2 * n \<le> Suc m"
    using m by auto
  have ab: "?a \<le> 2 * ?b" using Fib_mono_Suc [of n] by simp
  have e1: "bn_add cap (bn_of_nat ?b) (bn_of_nat ?b) = bn_of_nat (2 * ?b)"
    using bn_add_exact [of ?b ?b cap] cap1 by (simp add: mult_2)
  have e2: "bn_sub cap (bn_of_nat (2 * ?b)) (bn_of_nat ?a) = Inr (bn_of_nat (2 * ?b - ?a))"
    using ab cap1 by (rule bn_sub_exact)
  have even: "Fib (2 * n) = ?a * (2 * ?b - ?a)" by (rule Fib_double_even)
  have odd: "Fib (Suc (2 * n)) = ?a * ?a + ?b * ?b" by (rule Fib_double_odd)
  have e3: "bn_mul cap (bn_of_nat ?a) (bn_of_nat (2 * ?b - ?a)) = bn_of_nat (Fib (2 * n))"
    unfolding even using le [OF n_le(2)] by (intro bn_mul_exact lt) (simp flip: even)
  have e4: "bn_mul cap (bn_of_nat ?a) (bn_of_nat ?a) = bn_of_nat (?a * ?a)"
    using le [OF n_le(1)] by (intro bn_mul_exact lt) (simp add: odd)
  have e5: "bn_mul cap (bn_of_nat ?b) (bn_of_nat ?b) = bn_of_nat (?b * ?b)"
    using le [OF n_le(1)] by (intro bn_mul_exact lt) (simp add: odd)
  have e6: "bn_add cap (bn_of_nat (?a * ?a)) (bn_of_nat (?b * ?b)) = bn_of_nat (Fib (Suc (2 * n)))"
    unfolding odd using le [OF n_le(1)] by (intro bn_add_exact lt) (simp flip: odd)
  have e7: "bn_add cap (bn_of_nat (Fib (2 * n))) (bn_of_nat (Fib (Suc (2 * n))))
              = bn_of_nat (Fib (Suc (Suc (2 * n))))" if "m = Suc (2 * n)"
    using lt [of "Fib (Suc m)"] that bn_add_exact [of "Fib (2 * n)" "Fib (Suc (2 * n))" cap]
    by (simp add: add.commute)
  show ?thesis
  proof (cases "k AND push_bit i 1 \<noteq> 0")
    case True
    then have "m = Suc (2 * n)" using m by simp
    then show ?thesis using True e7
      by (simp add: doubling_step_def e1 e2 e3 e4 e5 e6 Let_def)
  next
    case False
    then have "m = 2 * n" using m by simp
    then show ?thesis using False
      by (simp add: doubling_step_def e1 e2 e3 e4 e5 e6 Let_def)
  qed
qed

lemma doubling_step_Fib:
  fixes k :: "64 word"
  assumes m: "m = 2 * n + (if k AND push_bit i 1 \<noteq> 0 then 1 else 0)"
    and cap: "2 * Fib (Suc m) < 10 ^ cap"
  shows "doubling_step cap k i (bn_of_nat (Fib n), bn_of_nat (Fib (Suc n)))
           = Inr (bn_of_nat (Fib m), bn_of_nat (Fib (Suc m)))"
proof -
  have "Fib (Suc n) \<le> Fib (Suc m)" using m by (intro Fib_mono) simp
  then have "2 * Fib (Suc n) < 10 ^ cap" and "Fib (Suc m) < 10 ^ cap"
    using cap by simp_all
  with m show ?thesis by (rule doubling_step_Fib_tight)
qed

section \<open>The doubling loop\<close>

lemma doubling_body_simps [simp]:
  "doubling_body cap k i (Inl e, n) = (Inl e, Suc n)"
  "doubling_body cap k i (Inr ab, n) = (doubling_step cap k i ab, Suc n)"
  by (simp_all add: doubling_body_def)

lemma ten_le_power: "0 < cap \<Longrightarrow> (10::nat) \<le> 10 ^ cap"
  using power_increasing [of 1 cap "10::nat"] by simp

lemma doubling_fold_Fib:
  assumes "j \<le> 32" and cap: "2 * Fib (Suc (low32 k)) < 10 ^ cap"
  shows "fold (doubling_body cap k) (rev [0..<j])
           (Inr (bn_of_nat (Fib (low32 k div 2 ^ j)), bn_of_nat (Fib (Suc (low32 k div 2 ^ j)))), c)
         = (Inr (bn_of_nat (Fib (low32 k)), bn_of_nat (Fib (Suc (low32 k)))), c + j)"
  using assms(1)
proof (induction j arbitrary: c)
  case 0
  show ?case by simp
next
  case (Suc j)
  let ?n = "low32 k div 2 ^ Suc j" and ?m = "low32 k div 2 ^ j"
  have j: "j < 32" "j \<le> 32" using Suc.prems by simp_all
  have m: "?m = 2 * ?n + (if k AND push_bit j 1 \<noteq> 0 then 1 else 0)"
    unfolding bit_test_low32 [OF j(1)] by (rule div_pow2_step)
  have "Fib (Suc ?m) \<le> Fib (Suc (low32 k))"
    by (rule Fib_mono) simp
  then have "2 * Fib (Suc ?m) < 10 ^ cap" using cap by simp
  then have step: "doubling_step cap k j (bn_of_nat (Fib ?n), bn_of_nat (Fib (Suc ?n)))
                     = Inr (bn_of_nat (Fib ?m), bn_of_nat (Fib (Suc ?m)))"
    by (rule doubling_step_Fib [OF m])
  show ?case
    using Suc.IH [OF j(2), of "Suc c"] by (simp add: step del: power_Suc)
qed

lemma fold_body_count: "snd (fold (doubling_body cap k) xs st) = snd st + length xs"
proof (induction xs arbitrary: st)
  case Nil
  show ?case by simp
next
  case (Cons x xs)
  obtain s c where st: "st = (s, c)" by (cases st)
  show ?case by (cases s) (simp_all add: st Cons.IH)
qed

lemma fold_body_fst:
  "fst (fold (doubling_body cap k) xs (s, c)) = fst (fold (doubling_body cap k) xs (s, c'))"
proof (induction xs arbitrary: s c c')
  case Nil
  show ?case by simp
next
  case (Cons x xs)
  show ?case
    by (cases s) (simp_all add: Cons.IH [of _ "Suc c" "Suc c'"])
qed

lemma bn_init_0: "0 < cap \<Longrightarrow> bn_init cap 0 = bn_of_nat 0"
  by (rule bn_init_exact) simp

lemma bn_init_1: "0 < cap \<Longrightarrow> bn_init cap (Suc 0) = bn_of_nat (Suc 0)"
  using ten_le_power [of cap] by (intro bn_init_exact) simp

lemma doubling_step_zero_bit:
  fixes k :: "64 word"
  assumes "0 < cap" and "\<not> (k AND push_bit i 1 \<noteq> 0)"
  shows "doubling_step cap k i (bn_init cap 0, bn_init cap 1) = Inr (bn_init cap 0, bn_init cap 1)"
proof -
  have "2 * Fib (Suc 0) < 10 ^ cap"
    using ten_le_power [OF assms(1)] by simp
  from doubling_step_Fib [of 0 0 k i cap, OF _ this] assms show ?thesis
    using bn_init_0 [of cap] bn_init_1 [of cap] by simp
qed

lemma fold_zero_bits:
  fixes k :: "64 word"
  assumes "0 < cap" and "\<forall>i \<in> set xs. \<not> (k AND push_bit i 1 \<noteq> 0)"
  shows "fold (doubling_body cap k) xs (Inr (bn_init cap 0, bn_init cap 1), c)
           = (Inr (bn_init cap 0, bn_init cap 1), c + length xs)"
  using assms(2)
proof (induction xs arbitrary: c)
  case Nil
  show ?case by simp
next
  case (Cons x xs)
  then show ?case
    using doubling_step_zero_bit [OF assms(1), of k x]
    by simp
qed

lemma clz_scan_bounds:
  assumes "unat x < 2 ^ n" and "x \<noteq> 0"
  shows "clz_scan n x < n \<and> 2 ^ (n - clz_scan n x - 1) \<le> unat x \<and> unat x < 2 ^ (n - clz_scan n x)"
  using assms(1)
proof (induction n)
  case 0
  then have "unat x = 0" by simp
  then show ?case using assms(2) by (simp add: unat_eq_0)
next
  case (Suc n)
  have split: "take_bit (Suc n) (unat x) = 2 ^ n * of_bool (bit (unat x) n) + take_bit n (unat x)"
    by (rule take_bit_Suc_from_most)
  have full: "take_bit (Suc n) (unat x) = unat x"
    using Suc.prems by (simp add: take_bit_nat_eq_self)
  have bit: "bit (unat x) n = bit x n"
    by (auto simp: bit_unsigned_iff dest: bit_imp_possible_bit)
  show ?case
  proof (cases "bit x n")
    case True
    then have "2 ^ n \<le> unat x" using split full bit by simp
    then show ?thesis using True Suc.prems by simp
  next
    case False
    then have "unat x = take_bit n (unat x)" using split full bit by simp
    then have "unat x < 2 ^ n"
      by (metis take_bit_nat_less_exp)
    from Suc.IH [OF this] show ?thesis using False by (simp add: Suc_diff_le less_imp_le)
  qed
qed

section \<open>Evaluating Fibonacci numbers\<close>

lemma Fib_numeral_even:
  "Fib (numeral (Num.Bit0 n)) = Fib (numeral n) * (2 * Fib (Suc (numeral n)) - Fib (numeral n))"
  using Fib_double_even [of "numeral n"] by (simp add: numeral_Bit0 mult_2)

lemma Fib_numeral_odd:
  "Fib (numeral (Num.Bit1 n)) = Fib (numeral n) * Fib (numeral n) + Fib (Suc (numeral n)) * Fib (Suc (numeral n))"
  using Fib_double_odd [of "numeral n"] by (simp add: numeral_Bit1 mult_2)

lemma Fib_1: "Fib 1 = 1" by simp

lemmas Fib_eval = Fib_numeral_even Fib_numeral_odd Fib_1

lemma Fib_151: "Fib 151 = 16130531424904581415797907386349"
  by (simp add: Fib_eval)

lemma Fib_150: "Fib 150 = 9969216677189303386214405760200"
  by (simp add: Fib_eval)

lemma Fib_92: "Fib 92 = 7540113804746346429"
  by (simp add: Fib_eval)

section \<open>What the strategies compute\<close>

lemma fib_dp_loop_Fib:
  assumes "Fib (nat K) < 10 ^ cap"
    and "2 \<le> i" and "i \<le> K + 2" and "length f = nat (K + 2)"
    and "\<forall>j < nat i. f ! j = bn_of_nat (Fib j)"
  shows "\<forall>j \<le> nat K. fib_dp_loop cap K i f ! j = bn_of_nat (Fib j)"
  using assms
proof (induction cap K i f rule: fib_dp_loop.induct)
  case (1 cap k i f)
  show ?case
  proof (cases "i \<le> k")
    case False
    then have "\<forall>j \<le> nat k. j < nat i" using "1.prems"(2) by auto
    then show ?thesis using False "1.prems"(5) by (subst fib_dp_loop.simps) auto
  next
    case True
    define m where "m = nat i - 2"
    have m: "nat i = Suc (Suc m)" using "1.prems"(2) by (simp add: m_def)
    have i1: "nat (i - 1) = Suc m" and i2: "nat (i - 2) = m" using m by linarith+
    let ?f = "f[nat i := bn_add cap (f ! nat (i - 1)) (f ! nat (i - 2))]"
    have "Fib (nat i) \<le> Fib (nat k)" using True by (intro Fib_mono) simp
    then have fit: "Fib (Suc m) + Fib m < 10 ^ cap" using "1.prems"(1) m by simp
    have new: "bn_add cap (f ! nat (i - 1)) (f ! nat (i - 2)) = bn_of_nat (Fib (nat i))"
      using "1.prems"(5) m bn_add_exact [OF fit] by (simp add: i1 i2)
    have len: "nat i < length f" using True "1.prems"(2,4) by simp
    have inv: "\<forall>j < nat (i + 1). ?f ! j = bn_of_nat (Fib j)"
    proof (intro allI impI)
      fix j assume "j < nat (i + 1)"
      then have "j < nat i \<or> j = nat i" using "1.prems"(2) by linarith
      then show "?f ! j = bn_of_nat (Fib j)"
        using "1.prems"(5) new len by (auto simp: nth_list_update)
    qed
    have "\<forall>j \<le> nat k. fib_dp_loop cap k (i + 1) ?f ! j = bn_of_nat (Fib j)"
      using True "1.prems" inv by (intro "1.IH") simp_all
    then show ?thesis using True by (subst fib_dp_loop.simps) simp
  qed
qed

lemma fib_dp_exact:
  assumes "0 \<le> sint k" and "sint k < 2 ^ 31 - 1" and "0 < cap" and "Fib (nat (sint k)) < 10 ^ cap"
  shows "fib_dp cap k = Inr (bn_of_nat (Fib (nat (sint k))))"
proof -
  let ?f = "(replicate (nat (sint k + 2)) bn_uninit)[0 := bn_init cap 0, 1 := bn_init cap 1]"
  have "\<forall>j < nat 2. ?f ! j = bn_of_nat (Fib j)"
  proof (intro allI impI)
    fix j :: nat assume "j < nat 2"
    then have "j = 0 \<or> j = 1" by auto
    then show "?f ! j = bn_of_nat (Fib j)"
      using assms(1,3) by (auto simp: nth_list_update bn_init_0 bn_init_1)
  qed
  then have "\<forall>j \<le> nat (sint k). fib_dp_loop cap (sint k) 2 ?f ! j = bn_of_nat (Fib j)"
    using assms by (intro fib_dp_loop_Fib) simp_all
  then show ?thesis using assms(1,2) by (simp add: fib_dp_def Let_def)
qed

lemma cap_pos: "2 * Fib (Suc n) < 10 ^ cap \<Longrightarrow> 0 < cap"
  by (cases cap) (use Fib_mono [of 1 "Suc n"] in auto)

lemma doubling_loop_Fib:
  assumes "low32 k < 2 ^ Suc start" and cap: "2 * Fib (Suc (low32 k)) < 10 ^ cap"
    and "Suc start \<le> 32"
  shows "doubling_loop cap k start (Inr (bn_init cap 0, bn_init cap 1), c)
           = (Inr (bn_of_nat (Fib (low32 k)), bn_of_nat (Fib (Suc (low32 k)))), c + Suc start)"
proof -
  have z: "low32 k div 2 ^ Suc start = 0" using assms(1) by (rule div_less)
  have i: "bn_init cap 0 = bn_of_nat (Fib 0)" "bn_init cap 1 = bn_of_nat (Fib (Suc 0))"
    using cap_pos [OF cap] by (simp_all add: bn_init_0 bn_init_1)
  show ?thesis
    unfolding doubling_loop_def i
    using doubling_fold_Fib [of "Suc start" k cap c, OF assms(3) cap]
    unfolding z .
qed

lemma fib_double_run_exact:
  assumes "k \<noteq> 0" and "k \<noteq> 1" and cap: "2 * Fib (Suc (low32 k)) < 10 ^ cap"
  shows "fib_double_run cap k = (Inr (bn_of_nat (Fib (low32 k))), 32)"
proof -
  have "low32 k < 2 ^ Suc 31" using low32_less [of k] by simp
  from doubling_loop_Fib [OF this cap, of 0] show ?thesis
    using assms(1,2) by (simp add: fib_double_run_def)
qed

lemma fib_double_clz_run_exact:
  assumes "k \<noteq> 0" and "k \<noteq> 1" and nz: "(ucast k :: 32 word) \<noteq> 0"
    and cap: "2 * Fib (Suc (low32 k)) < 10 ^ cap"
  shows "fib_double_clz_run cap k
           = Inr (Inr (bn_of_nat (Fib (low32 k))), 32 - clz_scan 32 (ucast k))"
proof -
  let ?z = "clz_scan 32 (ucast k :: 32 word)"
  have b: "?z < 32" "low32 k < 2 ^ (32 - ?z)"
    using clz_scan_bounds [of "ucast k :: 32 word" 32, OF _ nz] low32_less [of k]
    by (simp_all add: low32_def)
  have s: "Suc (31 - ?z) = 32 - ?z" using b(1) by simp
  have "low32 k < 2 ^ Suc (31 - ?z)" using b(2) unfolding s .
  from doubling_loop_Fib [OF this cap, of 0] show ?thesis
    using assms(1,2) nz s by (simp add: fib_double_clz_run_def builtin_clz_def)
qed

section \<open>The strategies on words\<close>

lemma word_of_sint:
  fixes k :: "64 word"
  assumes "0 \<le> sint k"
  shows "k = of_nat (nat (sint k))"
  using assms by simp

lemma sint_of_nat_small:
  assumes "n < 2 ^ 63"
  shows "sint (of_nat n :: 64 word) = int n"
proof -
  have "int n < 2 ^ 63" using assms by (metis of_nat_less_iff of_nat_numeral of_nat_power)
  then show ?thesis
    by (simp add: signed_of_nat signed_take_bit_int_eq_self)
qed

lemma unat_of_nat_small:
  assumes "n < 2 ^ 64"
  shows "unat (of_nat n :: 64 word) = n"
  using assms by (simp add: unat_of_nat take_bit_nat_eq_self)

lemma low32_of_nat:
  assumes "n < 2 ^ 32"
  shows "low32 (of_nat n) = n"
proof -
  have "unat (of_nat n :: 64 word) = n"
    using assms by (intro unat_of_nat_small) simp
  then show ?thesis
    using assms by (simp add: low32_def unsigned_ucast_eq take_bit_nat_eq_self)
qed

lemma ucast_of_nat_nonzero:
  assumes "n < 2 ^ 32" and "0 < n"
  shows "(ucast (of_nat n :: 64 word) :: 32 word) \<noteq> 0"
proof
  assume "(ucast (of_nat n :: 64 word) :: 32 word) = 0"
  then have "low32 (of_nat n) = 0" by (simp add: low32_def)
  then show False using assms by (simp add: low32_of_nat)
qed

lemma of_nat_eq_0_1:
  assumes "n < 2 ^ 32"
  shows "(of_nat n :: 64 word) = 0 \<longleftrightarrow> n = 0" and "(of_nat n :: 64 word) = 1 \<longleftrightarrow> n = 1"
proof -
  have u: "unat (of_nat n :: 64 word) = n"
    using assms by (intro unat_of_nat_small) simp
  show "(of_nat n :: 64 word) = 0 \<longleftrightarrow> n = 0"
    using u by (metis unat_eq_0 of_nat_0)
  show "(of_nat n :: 64 word) = 1 \<longleftrightarrow> n = 1"
    using u by (metis unat_1 of_nat_1)
qed

lemma fib_dp_of_nat:
  assumes "n < 2 ^ 31 - 1" and "0 < cap" and "Fib n < 10 ^ cap"
  shows "fib_dp cap (of_nat n) = Inr (bn_of_nat (Fib n))"
proof -
  have s: "sint (of_nat n :: 64 word) = int n"
    using assms(1) by (intro sint_of_nat_small) simp
  show ?thesis
    using fib_dp_exact [of "of_nat n" cap] assms by (simp add: s)
qed

lemma fib_double_run_of_nat:
  assumes "n < 2 ^ 32" and cap: "2 * Fib (Suc n) < 10 ^ cap"
  shows "fib_double_run cap (of_nat n) = (Inr (bn_of_nat (Fib n)), if n < 2 then 0 else 32)"
proof -
  consider "n = 0" | "n = 1" | "2 \<le> n" by linarith
  then show ?thesis
  proof cases
    case 1
    then show ?thesis using cap_pos [OF cap] by (simp add: fib_double_run_def bn_init_0)
  next
    case 2
    then show ?thesis using cap_pos [OF cap] by (simp add: fib_double_run_def bn_init_1)
  next
    case 3
    then have "(of_nat n :: 64 word) \<noteq> 0" "(of_nat n :: 64 word) \<noteq> 1"
      using of_nat_eq_0_1 [OF assms(1)] by simp_all
    then show ?thesis
      using fib_double_run_exact [of "of_nat n" cap] cap 3 by (simp add: low32_of_nat [OF assms(1)])
  qed
qed

lemma fib_double_clz_run_of_nat:
  assumes "n < 2 ^ 32" and cap: "2 * Fib (Suc n) < 10 ^ cap"
  shows "fib_double_clz_run cap (of_nat n)
           = Inr (Inr (bn_of_nat (Fib n)),
                  if n < 2 then 0 else 32 - clz_scan 32 (ucast (of_nat n :: 64 word)))"
proof -
  consider "n = 0" | "n = 1" | "2 \<le> n" by linarith
  then show ?thesis
  proof cases
    case 1
    then show ?thesis using cap_pos [OF cap] by (simp add: fib_double_clz_run_def bn_init_0)
  next
    case 2
    then show ?thesis using cap_pos [OF cap] by (simp add: fib_double_clz_run_def bn_init_1)
  next
    case 3
    then have "(of_nat n :: 64 word) \<noteq> 0" "(of_nat n :: 64 word) \<noteq> 1"
      using of_nat_eq_0_1 [OF assms(1)] by simp_all
    moreover have "(ucast (of_nat n :: 64 word) :: 32 word) \<noteq> 0"
      using 3 by (intro ucast_of_nat_nonzero assms(1)) simp
    ultimately show ?thesis
      using fib_double_clz_run_exact [of "of_nat n" cap] cap 3
      by (simp add: low32_of_nat [OF assms(1)])
  qed
qed

lemma capacity_150:
  assumes "32 \<le> cap" and "n \<le> 150"
  shows "2 * Fib (Suc n) < 10 ^ cap"
proof -
  have "Fib (Suc n) \<le> Fib 151" using assms(2) by (intro Fib_mono) simp
  then have "2 * Fib (Suc n) < (10::nat) ^ 32" by (simp add: Fib_151)
  also have "\<dots> \<le> 10 ^ cap" using assms(1) by (intro power_increasing) simp_all
  finally show ?thesis .
qed

lemma strategies_exact:
  assumes "32 \<le> cap" and "n \<le> 150"
  shows "fib_dp cap (of_nat n) = Inr (bn_of_nat (Fib n))"
    and "fib_double cap (of_nat n) = Inr (bn_of_nat (Fib n))"
    and "fib_double_clz cap (of_nat n) = Inr (bn_of_nat (Fib n))"
proof -
  have c: "2 * Fib (Suc n) < 10 ^ cap" using assms by (rule capacity_150)
  have "Fib n \<le> Fib (Suc n)" by (rule Fib_mono_Suc)
  then have "Fib n < 10 ^ cap" using c by simp
  then show "fib_dp cap (of_nat n) = Inr (bn_of_nat (Fib n))"
    using assms by (intro fib_dp_of_nat) simp_all
  have n: "n < 2 ^ 32" using assms(2) by simp
  show "fib_double cap (of_nat n) = Inr (bn_of_nat (Fib n))"
    by (simp add: fib_double_def fib_double_run_of_nat [OF n c])
  show "fib_double_clz cap (of_nat n) = Inr (bn_of_nat (Fib n))"
    by (simp add: fib_double_clz_def fib_double_clz_run_of_nat [OF n c])
qed

text \<open>
  Claim C1. For every index \<open>k\<close> from 0 to 150 the three strategies return the same big
  number, and it is the one \<open>fib_dp\<close> returns, the Fibonacci number of \<open>k\<close> in
  canonical form. The capacity \<open>MAX_DIGITS\<close> is at least 32 digits: \<open>F(151)\<close>, which
  the doubling loop computes beside \<open>F(150)\<close>, has 32 digits.
\<close>

theorem strategies_agree:
  assumes "32 \<le> cap" and "0 \<le> sint k" and "sint k \<le> 150"
  shows "fib_dp cap k = Inr (bn_of_nat (Fib (nat (sint k))))
         \<and> fib_double cap k = fib_dp cap k
         \<and> fib_double_clz cap k = fib_dp cap k"
proof -
  have k: "k = of_nat (nat (sint k))" using assms(2) by (rule word_of_sint)
  have n: "nat (sint k) \<le> 150" using assms(3) by simp
  show ?thesis
    using strategies_exact [OF assms(1) n] by (simp flip: k)
qed

theorem strategies_agree_witness:
  "(32::nat) \<le> 32 \<and> 0 \<le> sint (150 :: 64 word) \<and> sint (150 :: 64 word) \<le> 150
   \<and> fib_dp 32 150 = Inr (bn_of_nat (Fib 150))
   \<and> fib_double 32 150 = fib_dp 32 150
   \<and> fib_double_clz 32 150 = fib_dp 32 150"
  using strategies_agree [of 32 150] by simp

section \<open>Recurrence and base cases\<close>

lemma of_nat_minus:
  assumes "m \<le> n"
  shows "(of_nat n :: 64 word) - of_nat m = of_nat (n - m)"
  using assms by (simp add: of_nat_diff)

text \<open>
  Claim C2. For every index \<open>k\<close> from 2 to 150 and each of the three strategies, the
  result at \<open>k\<close> is \<open>bn_add\<close> of the results of the same strategy at \<open>k - 1\<close> and
  \<open>k - 2\<close>.
\<close>

theorem recurrence_law:
  assumes "32 \<le> cap" and "2 \<le> sint k" and "sint k \<le> 150"
  shows "recurrence_at cap (fib_dp cap) k
         \<and> recurrence_at cap (fib_double cap) k
         \<and> recurrence_at cap (fib_double_clz cap) k"
proof -
  define n where "n = nat (sint k) - 2"
  have nk: "nat (sint k) = Suc (Suc n)" using assms(2) by (simp add: n_def)
  have k: "k = of_nat (Suc (Suc n))" using assms(2) word_of_sint [of k] by (simp add: nk)
  have k1: "k - 1 = of_nat (Suc n)" and k2: "k - 2 = of_nat n"
    unfolding k by simp_all
  have le: "Suc (Suc n) \<le> 150" "Suc n \<le> 150" "n \<le> 150" using assms(3) nk by linarith+
  have "2 * Fib (Suc (Suc (Suc n))) < 10 ^ cap" using assms(1) le(1) by (rule capacity_150)
  then have "Fib (Suc n) + Fib n < 10 ^ cap" by simp
  then have add: "bn_add cap (bn_of_nat (Fib (Suc n))) (bn_of_nat (Fib n)) = bn_of_nat (Fib (Suc (Suc n)))"
    using bn_add_exact [of "Fib (Suc n)" "Fib n" cap] by simp
  show ?thesis
    unfolding recurrence_at_def k1 k2
    unfolding k strategies_exact [OF assms(1) le(1)] strategies_exact [OF assms(1) le(2)]
      strategies_exact [OF assms(1) le(3)]
    by (simp add: add)
qed

theorem recurrence_law_witness:
  "(32::nat) \<le> 32 \<and> 2 \<le> sint (92 :: 64 word) \<and> sint (92 :: 64 word) \<le> 150
   \<and> recurrence_at 32 (fib_dp 32) 92
   \<and> recurrence_at 32 (fib_double 32) 92
   \<and> recurrence_at 32 (fib_double_clz 32) 92"
  using recurrence_law [of 32 92] by simp

text \<open>
  Claim C3. At \<open>k = 0\<close> every strategy returns the big number that \<open>bn_init\<close> makes of 0,
  and at \<open>k = 1\<close> the one it makes of 1, the single digits 0 and 1; the two doubling
  strategies return them without any loop iteration.
\<close>

theorem base_cases:
  "fib_dp cap 0 = Inr (bn_init cap 0) \<and> fib_dp cap 1 = Inr (bn_init cap 1)
   \<and> fib_double_run cap 0 = (Inr (bn_init cap 0), 0)
   \<and> fib_double_run cap 1 = (Inr (bn_init cap 1), 0)
   \<and> fib_double_clz_run cap 0 = Inr (Inr (bn_init cap 0), 0)
   \<and> fib_double_clz_run cap 1 = Inr (Inr (bn_init cap 1), 0)
   \<and> (0 < cap \<longrightarrow> bn_init cap 0 = \<lparr>num_digits = 1, digits = [0]\<rparr>
                   \<and> bn_init cap 1 = \<lparr>num_digits = 1, digits = [1]\<rparr>)"
proof -
  have dp: "fib_dp cap 0 = Inr (bn_init cap 0)" "fib_dp cap 1 = Inr (bn_init cap 1)"
    by (simp_all add: fib_dp_def fib_dp_loop.simps)
  have nd: "nat_digits 0 = [0]" "nat_digits (Suc 0) = [1]"
    by (simp_all add: nat_digits.simps)
  have "bn_init cap 0 = \<lparr>num_digits = 1, digits = [0]\<rparr>
        \<and> bn_init cap 1 = \<lparr>num_digits = 1, digits = [1]\<rparr>" if "0 < cap"
    using bn_init_0 [OF that] bn_init_1 [OF that] by (simp add: bn_of_nat_def nd)
  then show ?thesis
    using dp by (simp add: fib_double_run_def fib_double_clz_run_def)
qed

theorem base_cases_witness:
  "(0::nat) < 32 \<and> fib_dp 32 0 = Inr \<lparr>num_digits = 1, digits = [0]\<rparr>
   \<and> fib_double_run 32 1 = (Inr \<lparr>num_digits = 1, digits = [1]\<rparr>, 0)
   \<and> fib_double_clz_run 32 1 = Inr (Inr \<lparr>num_digits = 1, digits = [1]\<rparr>, 0)"
  using base_cases [of 32] by simp

section \<open>The two doubling strategies compared\<close>

lemma fib_double_run_loop:
  assumes "k \<noteq> 0" and "k \<noteq> 1"
  shows "fib_double_run cap k =
           (map_sum id fst (fst (doubling_loop cap k 31 (Inr (bn_init cap 0, bn_init cap 1), 0))),
            snd (doubling_loop cap k 31 (Inr (bn_init cap 0, bn_init cap 1), 0)))"
proof -
  obtain r n where L: "doubling_loop cap k 31 (Inr (bn_init cap 0, bn_init cap 1), 0) = (r, n)"
    by (cases "doubling_loop cap k 31 (Inr (bn_init cap 0, bn_init cap 1), 0)")
  show ?thesis
    using assms unfolding fib_double_run_def Let_def L by (cases r) simp_all
qed

lemma fib_double_clz_run_loop:
  assumes "k \<noteq> 0" and "k \<noteq> 1" and "(ucast k :: 32 word) \<noteq> 0"
  shows "fib_double_clz_run cap k =
           Inr (map_sum id fst (fst (doubling_loop cap k (31 - clz_scan 32 (ucast k))
                                       (Inr (bn_init cap 0, bn_init cap 1), 0))),
                snd (doubling_loop cap k (31 - clz_scan 32 (ucast k))
                       (Inr (bn_init cap 0, bn_init cap 1), 0)))"
proof -
  obtain r n where L: "doubling_loop cap k (31 - clz_scan 32 (ucast k))
                         (Inr (bn_init cap 0, bn_init cap (Suc 0)), 0) = (r, n)"
    by (cases "doubling_loop cap k (31 - clz_scan 32 (ucast k)) (Inr (bn_init cap 0, bn_init cap (Suc 0)), 0)")
  show ?thesis
    using assms by (cases r) (simp_all add: fib_double_clz_run_def builtin_clz_def L)
qed

lemma doubling_loop_count: "snd (doubling_loop cap k start (s, c)) = c + Suc start"
  unfolding doubling_loop_def by (simp add: fold_body_count del: upt_Suc)

lemma high_bits_zero:
  fixes k :: "64 word"
  assumes "low32 k < 2 ^ j" and "j \<le> i" and "i < 32"
  shows "\<not> (k AND push_bit i 1 \<noteq> 0)"
proof -
  have "(2::nat) ^ j \<le> 2 ^ i" using assms(2) by (intro power_increasing) simp_all
  then have "low32 k < 2 ^ i" using assms(1) by (rule less_le_trans [rotated])
  then have "low32 k div 2 ^ i = 0" by (rule div_less)
  then show ?thesis unfolding bit_test_low32 [OF assms(3)] by simp
qed

lemma doubling_loop_skip_zero_bits:
  assumes "0 < cap" and "low32 k < 2 ^ Suc start" and "start \<le> 31"
  shows "fst (doubling_loop cap k 31 (Inr (bn_init cap 0, bn_init cap 1), 0))
           = fst (doubling_loop cap k start (Inr (bn_init cap 0, bn_init cap 1), 0))"
proof -
  let ?s = "Inr (bn_init cap 0, bn_init cap 1) :: error + bn_t \<times> bn_t"
  have "[0..<Suc start + (31 - start)] = [0..<Suc start] @ [Suc start..<Suc start + (31 - start)]"
    by (rule upt_add_eq_append) simp
  moreover have "Suc start + (31 - start) = Suc 31" using assms(3) by simp
  ultimately have split: "rev [0..<Suc 31] = rev [Suc start..<Suc 31] @ rev [0..<Suc start]"
    by (simp only: rev_append)
  have "\<forall>i \<in> set (rev [Suc start..<Suc 31]). \<not> (k AND push_bit i 1 \<noteq> 0)"
    using high_bits_zero [OF assms(2)] by simp
  then have "fold (doubling_body cap k) (rev [Suc start..<Suc 31]) (?s, 0)
               = (?s, 0 + length (rev [Suc start..<Suc 31]))"
    by (rule fold_zero_bits [OF assms(1)])
  then have "doubling_loop cap k 31 (?s, 0)
               = fold (doubling_body cap k) (rev [0..<Suc start]) (?s, 0 + length (rev [Suc start..<Suc 31]))"
    unfolding doubling_loop_def split by (simp only: fold_append comp_apply)
  then have "fst (doubling_loop cap k 31 (?s, 0))
               = fst (fold (doubling_body cap k) (rev [0..<Suc start])
                        (?s, 0 + length (rev [Suc start..<Suc 31])))"
    by (simp only:)
  also have "\<dots> = fst (fold (doubling_body cap k) (rev [0..<Suc start]) (?s, 0))"
    by (rule fold_body_fst)
  finally show ?thesis
    unfolding doubling_loop_def [of cap k start] .
qed

lemma clz_start:
  assumes "(ucast k :: 32 word) \<noteq> 0"
  shows "clz_scan 32 (ucast k :: 32 word) < 32"
    and "low32 k < 2 ^ Suc (31 - clz_scan 32 (ucast k :: 32 word))"
    and "2 ^ (31 - clz_scan 32 (ucast k :: 32 word)) \<le> low32 k"
proof -
  let ?z = "clz_scan 32 (ucast k :: 32 word)"
  have b: "?z < 32 \<and> 2 ^ (32 - ?z - 1) \<le> low32 k \<and> low32 k < 2 ^ (32 - ?z)"
    using clz_scan_bounds [of "ucast k :: 32 word" 32, OF _ assms] low32_less [of k]
    by (simp add: low32_def)
  then show "?z < 32" by simp
  then have "Suc (31 - ?z) = 32 - ?z" "32 - ?z - 1 = 31 - ?z" by simp_all
  then show "low32 k < 2 ^ Suc (31 - ?z)" "2 ^ (31 - ?z) \<le> low32 k" using b by simp_all
qed

lemma doubling_results_equal:
  assumes "0 < cap" and "k = 0 \<or> (ucast k :: 32 word) \<noteq> 0"
  shows "fib_double cap k = fib_double_clz cap k"
proof (cases "k = 0 \<or> k = 1")
  case True
  then show ?thesis
    by (auto simp: fib_double_def fib_double_clz_def fib_double_run_def fib_double_clz_run_def)
next
  case False
  then have k: "k \<noteq> 0" "k \<noteq> 1" and nz: "(ucast k :: 32 word) \<noteq> 0" using assms(2) by simp_all
  have "fst (doubling_loop cap k 31 (Inr (bn_init cap 0, bn_init cap 1), 0))
          = fst (doubling_loop cap k (31 - clz_scan 32 (ucast k)) (Inr (bn_init cap 0, bn_init cap 1), 0))"
    using clz_start [OF nz] by (intro doubling_loop_skip_zero_bits assms(1)) simp_all
  then show ?thesis
    by (simp add: fib_double_def fib_double_clz_def fib_double_run_loop [OF k]
        fib_double_clz_run_loop [OF k nz])
qed

lemma fib_double_iters_eq: "fib_double_iters cap k = (if k = 0 \<or> k = 1 then 0 else 32)"
proof (cases "k = 0 \<or> k = 1")
  case True
  then show ?thesis by (auto simp: fib_double_iters_def fib_double_run_def)
next
  case False
  then show ?thesis
    by (simp add: fib_double_iters_def fib_double_run_loop doubling_loop_count)
qed

lemma fib_double_clz_iters_base:
  "k = 0 \<or> k = 1 \<Longrightarrow> fib_double_clz_iters cap k = Some 0"
  by (auto simp: fib_double_clz_iters_def fib_double_clz_run_def)

lemma fib_double_clz_iters_loop:
  assumes "k \<noteq> 0" and "k \<noteq> 1" and "(ucast k :: 32 word) \<noteq> 0"
  shows "fib_double_clz_iters cap k = Some (32 - clz_scan 32 (ucast k :: 32 word))"
proof -
  have "clz_scan 32 (ucast k :: 32 word) < 32" using assms(3) by (rule clz_start)
  then have "Suc (31 - clz_scan 32 (ucast k :: 32 word)) = 32 - clz_scan 32 (ucast k :: 32 word)"
    by simp
  then show ?thesis
    by (simp add: fib_double_clz_iters_def fib_double_clz_run_loop [OF assms] doubling_loop_count)
qed

lemma fib_double_clz_iters_undefined:
  assumes "k \<noteq> 0" and "k \<noteq> 1" and "(ucast k :: 32 word) = 0"
  shows "fib_double_clz_iters cap k = None"
  using assms by (simp add: fib_double_clz_iters_def fib_double_clz_run_def builtin_clz_def)

lemma bitlen_between:
  assumes "2 ^ (w - 1) \<le> n" and "n < 2 ^ w" and "0 < w"
  shows "bitlen (int n) = int w"
proof (rule antisym)
  have "int n < 2 ^ w" using assms(2) by (metis of_nat_less_iff of_nat_numeral of_nat_power)
  then show "bitlen (int n) \<le> int w" by (simp add: bitlen_le_iff_power)
  have "(2::int) ^ (w - 1) \<le> int n" using assms(1) by (metis of_nat_le_iff of_nat_numeral of_nat_power)
  then show "int w \<le> bitlen (int n)" by (simp add: bitlen_ge_iff_power)
qed

text \<open>
  Claim C7, as amended. Whenever \<open>fib_double_clz\<close> has a number of loop iterations, it is
  at most the number of \<open>fib_double\<close>; for every \<open>k\<close> from 2 to \<open>2^32 - 1\<close> it is the
  bit length of \<open>k\<close>; at \<open>k = 0\<close> and \<open>k = 1\<close> both functions return before the loop,
  with no iteration.
\<close>

theorem iteration_counts:
  "(\<forall>n. fib_double_clz_iters cap k = Some n \<longrightarrow> n \<le> fib_double_iters cap k)
   \<and> (2 \<le> sint k \<and> sint k < 2 ^ 32 \<longrightarrow>
        fib_double_clz_iters cap k = Some (nat (bitlen (sint k))))
   \<and> (k = 0 \<or> k = 1 \<longrightarrow> fib_double_clz_iters cap k = Some 0 \<and> fib_double_iters cap k = 0)"
proof (intro conjI allI impI)
  fix n assume n: "fib_double_clz_iters cap k = Some n"
  show "n \<le> fib_double_iters cap k"
  proof (cases "k = 0 \<or> k = 1")
    case True
    then show ?thesis using n fib_double_clz_iters_base [of k cap] by simp
  next
    case False
    then have k: "k \<noteq> 0" "k \<noteq> 1" by simp_all
    then have "(ucast k :: 32 word) \<noteq> 0"
      using n fib_double_clz_iters_undefined [OF k, of cap] by auto
    then show ?thesis
      using n k by (simp add: fib_double_clz_iters_loop fib_double_iters_eq)
  qed
next
  assume r: "2 \<le> sint k \<and> sint k < 2 ^ 32"
  define n where "n = nat (sint k)"
  have k: "k = of_nat n" using r word_of_sint [of k] by (simp add: n_def)
  have n: "n < 2 ^ 32" "2 \<le> n" using r by (simp_all add: n_def nat_less_iff le_nat_iff)
  have l: "low32 k = n" unfolding k using n(1) by (rule low32_of_nat)
  have k01: "k \<noteq> 0" "k \<noteq> 1" using of_nat_eq_0_1 [OF n(1)] n(2) by (simp_all add: k)
  have nz: "(ucast k :: 32 word) \<noteq> 0"
    unfolding k using n by (intro ucast_of_nat_nonzero) simp_all
  let ?z = "clz_scan 32 (ucast k :: 32 word)"
  have z: "?z < 32" "n < 2 ^ Suc (31 - ?z)" "2 ^ (31 - ?z) \<le> n"
    using clz_start [OF nz] unfolding l by this+
  have s: "Suc (31 - ?z) = 32 - ?z" "31 - ?z = 32 - ?z - 1" using z(1) by simp_all
  have lo: "2 ^ (32 - ?z - 1) \<le> n" using z(3) by (simp only: s(2))
  have hi: "n < 2 ^ (32 - ?z)" using z(2) by (simp only: s(1))
  have "0 < 32 - ?z" using z(1) by simp
  with lo hi have "bitlen (int n) = int (32 - ?z)"
    by (rule bitlen_between)
  moreover have "sint k = int n" using r by (simp add: n_def)
  ultimately show "fib_double_clz_iters cap k = Some (nat (bitlen (sint k)))"
    by (simp add: fib_double_clz_iters_loop [OF k01 nz])
next
  assume "k = 0 \<or> k = 1"
  then show "fib_double_clz_iters cap k = Some 0" by (rule fib_double_clz_iters_base)
next
  assume "k = 0 \<or> k = 1"
  then show "fib_double_iters cap k = 0" by (simp add: fib_double_iters_eq)
qed

lemma clz_scan_150: "clz_scan 32 150 = 24"
  by code_simp

lemma clz_scan_2: "clz_scan 32 4294967298 = 30"
  by code_simp

theorem iteration_counts_witness:
  "fib_double_clz_iters 32 150 = Some 8 \<and> 8 \<le> fib_double_iters 32 150
   \<and> 2 \<le> sint (150 :: 64 word) \<and> sint (150 :: 64 word) < 2 ^ 32
   \<and> Some 8 = Some (nat (bitlen (sint (150 :: 64 word))))
   \<and> fib_double_clz_iters 32 1 = Some 0 \<and> fib_double_iters 32 1 = 0"
proof -
  have "fib_double_clz_iters 32 150 = Some (32 - clz_scan 32 (ucast (150 :: 64 word)))"
    by (rule fib_double_clz_iters_loop) simp_all
  then have a: "fib_double_clz_iters 32 150 = Some 8" by (simp add: clz_scan_150)
  show ?thesis
    using iteration_counts [of 32 150] iteration_counts [of 32 1] a by simp
qed

text \<open>
  The claim C7 as it is stated, the bit length of \<open>k\<close> for every \<open>k \<ge> 1\<close>, fails at
  \<open>k = 1\<close>, where \<open>fib_double_clz\<close> returns before the loop, and at \<open>k = 2^32 + 2\<close>,
  where \<open>__builtin_clz\<close> sees only the low 32 bits of \<open>k\<close>.
\<close>

theorem iteration_counts_differ:
  "fib_double_clz_iters 32 1 = Some 0 \<and> bitlen (sint (1 :: 64 word)) = 1
   \<and> fib_double_clz_iters 32 4294967298 = Some 2 \<and> bitlen (sint (4294967298 :: 64 word)) = 33"
proof -
  have a: "fib_double_clz_iters 32 1 = Some 0" by (rule fib_double_clz_iters_base) simp
  have b: "bitlen (sint (1 :: 64 word)) = 1"
    using bitlen_between [of 1 1] by simp
  have "fib_double_clz_iters 32 4294967298 = Some (32 - clz_scan 32 (ucast (4294967298 :: 64 word)))"
    by (rule fib_double_clz_iters_loop) simp_all
  then have c: "fib_double_clz_iters 32 4294967298 = Some 2" by (simp add: clz_scan_2)
  have d: "bitlen (sint (4294967298 :: 64 word)) = 33"
    using bitlen_between [of 33 4294967298] by simp
  show ?thesis using a b c d by simp
qed

section \<open>Formatting\<close>

lemma digit_cases: "d < 10 \<Longrightarrow> d \<in> {0, 1, 2, 3, 4, 5, 6, 7, 8, 9::nat}"
  by auto

lemma digit_char_not_NUL: "d < 10 \<Longrightarrow> digit_char d \<noteq> NUL"
  by (drule digit_cases) (auto simp: digit_char_def NUL_def)



lemma print_d_digit: "d < 10 \<Longrightarrow> print_d d = [digit_char d]"
  by (simp add: print_d.simps)

lemma snprintf_d_digit:
  assumes "d < 10" and "length pre = i" and "i + 2 \<le> cap"
  shows "snprintf_d (pre @ replicate (cap - i) NUL) i (int cap - int i) d
           = (pre @ [digit_char d] @ replicate (cap - Suc i) NUL, 1)"
proof -
  obtain m where cap: "cap = i + 2 + m"
    using assms(3) le_Suc_ex by blast
  show ?thesis
    using assms(1,2) by (simp add: cap snprintf_d_def print_d_digit Let_def)
qed

lemma fib_read_fold:
  assumes "decimal ds" and "length ds < cap" and "i \<le> length ds"
  shows "fold (fib_read_step cap \<lparr>num_digits = length ds, digits = ds\<rparr>) [0..<i]
           (replicate cap NUL, 0)
         = (map digit_char (take i (rev ds)) @ replicate (cap - i) NUL, i)"
  using assms(3)
proof (induction i)
  case 0
  show ?case by simp
next
  case (Suc i)
  let ?r = "\<lparr>num_digits = length ds, digits = ds\<rparr>"
  have i: "i < length ds" "i \<le> length ds" using Suc.prems by simp_all
  have "length ds - Suc i < length ds" using i by linarith
  then have cell: "digit_cell ?r (num_digits ?r - i - 1) = rev ds ! i"
    using i by (simp add: digit_cell_def rev_nth)
  have "rev ds ! i \<in> set ds" using i by (metis length_rev nth_mem set_rev)
  then have d: "rev ds ! i < 10" using assms(1) by (simp add: decimal_def list_all_iff)
  have step: "fib_read_step cap ?r i (map digit_char (take i (rev ds)) @ replicate (cap - i) NUL, i)
                = (map digit_char (take i (rev ds)) @ [digit_char (rev ds ! i)]
                     @ replicate (cap - Suc i) NUL, Suc i)"
    unfolding fib_read_step_def cell
    using snprintf_d_digit [OF d, of "map digit_char (take i (rev ds))" i cap] i assms(2)
    by simp
  have "take (Suc i) (rev ds) = take i (rev ds) @ [rev ds ! i]"
    using i by (simp add: take_Suc_conv_app_nth)
  then show ?case
    using Suc.IH [OF i(2)] by (simp add: step)
qed

lemma c_string_NULs: "c_string (replicate m NUL) = []"
  by (cases m) (simp_all add: c_string_def)

lemma c_string_digits:
  "decimal ds \<Longrightarrow> c_string (map digit_char ds @ replicate m NUL) = map digit_char ds"
proof (induction ds)
  case Nil
  show ?case by (simp add: c_string_NULs)
next
  case (Cons d ds)
  then show ?case
    using digit_char_not_NUL [of d] by (simp add: c_string_def)
qed

lemma fib_read_tmp_digits:
  assumes "decimal ds" and "length ds < cap"
  shows "fib_read_tmp cap \<lparr>num_digits = length ds, digits = ds\<rparr>
           = map digit_char (rev ds) @ replicate (cap - length ds) NUL"
  using fib_read_fold [OF assms, of "length ds"] by (simp add: fib_read_tmp_def)

lemma nat_digits_length: "0 < m \<Longrightarrow> v < 10 ^ m \<Longrightarrow> length (nat_digits v) \<le> m"
proof (induction v arbitrary: m rule: nat_digits.induct)
  case (1 n)
  show ?case
  proof (cases "n < 10")
    case True
    then show ?thesis using "1.prems"(1) by (subst nat_digits.simps) simp
  next
    case False
    obtain m' where m: "m = Suc m'" using "1.prems"(1) by (cases m) simp_all
    have "n div 10 < 10 ^ m'" using "1.prems"(2) by (simp add: m less_mult_imp_div_less mult.commute)
    moreover have "0 < m'" using False "1.prems"(2) m by (cases m') simp_all
    ultimately have "length (nat_digits (n div 10)) \<le> m'" using False by (intro "1.IH") simp_all
    then show ?thesis using False by (subst nat_digits.simps) (simp add: m)
  qed
qed

lemma nat_digits_nonempty: "nat_digits v \<noteq> []"
  by (subst nat_digits.simps) simp


lemma Fib_150_digits: "n \<le> 150 \<Longrightarrow> length (nat_digits (Fib n)) \<le> 31"
proof -
  assume "n \<le> 150"
  then have "Fib n \<le> Fib 150" by (rule Fib_mono)
  then have "Fib n < 10 ^ 31" by (simp add: Fib_150)
  then show ?thesis by (intro nat_digits_length) simp_all
qed

lemma fib_sequence_call_exact:
  assumes "32 \<le> cap" and "n \<le> 150"
  shows "fib_sequence_call cap s (of_nat n) = Inr (bn_of_nat (Fib n))"
  by (cases s) (simp_all add: fib_sequence_call_def strategies_exact [OF assms])

lemma fib_read_string_exact:
  assumes "32 \<le> cap" and "n \<le> 150"
  shows "fib_read_string cap (Some s) (of_nat n) = Inr (map digit_char (rev (nat_digits (Fib n))))"
proof -
  let ?ds = "nat_digits (Fib n)"
  have len: "length ?ds < cap" using Fib_150_digits [OF assms(2)] assms(1) by simp
  have dec: "decimal ?ds" "decimal (rev ?ds)"
    using decimal_nat_digits [of "Fib n"] by (simp_all add: decimal_def)
  have "fib_read_tmp cap (bn_of_nat (Fib n))
          = map digit_char (rev ?ds) @ replicate (cap - length ?ds) NUL"
    unfolding bn_of_nat_def using dec(1) len by (rule fib_read_tmp_digits)
  then have "c_string (fib_read_tmp cap (bn_of_nat (Fib n))) = map digit_char (rev ?ds)"
    using dec(2) by (simp add: c_string_digits)
  then show ?thesis
    by (simp add: fib_read_string_def fib_read_def fib_sequence_call_exact [OF assms])
qed

lemma Fib_10: "Fib 10 = 55"
  by (simp add: Fib_eval)

lemma Fib_50: "Fib 50 = 12586269025"
  by (simp add: Fib_eval)

lemma Fib_93: "Fib 93 = 12200160415121876738"
  by (simp add: Fib_eval)

lemma Fib_signed_64: "Fib n < 2 ^ 63 \<longleftrightarrow> n \<le> 92"
proof
  assume "Fib n < 2 ^ 63"
  show "n \<le> 92"
  proof (rule ccontr)
    assume "\<not> n \<le> 92"
    then have "Fib 93 \<le> Fib n" by (intro Fib_mono) simp
    then show False using \<open>Fib n < 2 ^ 63\<close> by (simp add: Fib_93)
  qed
next
  assume "n \<le> 92"
  then have "Fib n \<le> Fib 92" by (rule Fib_mono)
  then show "Fib n < 2 ^ 63" by (simp add: Fib_92)
qed

text \<open>
  Claim C4. Under every strategy, the decimal string read is "0" at index 0, "1" at index
  1, "55" at index 10, "12586269025" at index 50 and "7540113804746346429" at index 92.
  The Fibonacci numbers below \<open>2^63\<close>, those that a signed 64-bit word such as
  \<open>ssize_t\<close> holds, are the ones up to index 92.
\<close>

theorem concrete_values:
  assumes "32 \<le> cap"
  shows "fib_read_string cap (Some s) 0 = Inr ''0''
         \<and> fib_read_string cap (Some s) 1 = Inr ''1''
         \<and> fib_read_string cap (Some s) 10 = Inr ''55''
         \<and> fib_read_string cap (Some s) 50 = Inr ''12586269025''
         \<and> fib_read_string cap (Some s) 92 = Inr ''7540113804746346429''
         \<and> (\<forall>n. Fib n < 2 ^ 63 \<longleftrightarrow> n \<le> 92)"
proof -
  have 0: "fib_read_string cap (Some s) 0 = Inr ''0''"
    using fib_read_string_exact [OF assms, of 0 s]
    by (simp add: nat_digits.simps digit_char_def)
  have 1: "fib_read_string cap (Some s) 1 = Inr ''1''"
    using fib_read_string_exact [OF assms, of 1 s]
    by (simp add: nat_digits.simps digit_char_def)
  have 10: "fib_read_string cap (Some s) 10 = Inr ''55''"
    using fib_read_string_exact [OF assms, of 10 s]
    by (simp add: Fib_10 nat_digits.simps digit_char_def)
  have 50: "fib_read_string cap (Some s) 50 = Inr ''12586269025''"
    using fib_read_string_exact [OF assms, of 50 s]
    by (simp add: Fib_50 nat_digits.simps digit_char_def)
  have 92: "fib_read_string cap (Some s) 92 = Inr ''7540113804746346429''"
    using fib_read_string_exact [OF assms, of 92 s]
    by (simp add: Fib_92 nat_digits.simps digit_char_def)
  show ?thesis using 0 1 10 50 92 Fib_signed_64 by simp
qed

theorem concrete_values_witness:
  "(32::nat) \<le> 32
   \<and> fib_read_string 32 (Some FIB_DP) 92 = Inr ''7540113804746346429''
   \<and> fib_read_string 32 (Some FIB_DOUB) 92 = Inr ''7540113804746346429''
   \<and> fib_read_string 32 (Some FIB_DOUB_CLZ) 92 = Inr ''7540113804746346429''
   \<and> fib_read_string 32 (Some FIB_DOUB_CLZ) 50 = Inr ''12586269025''"
  using concrete_values [of 32 FIB_DP] concrete_values [of 32 FIB_DOUB]
    concrete_values [of 32 FIB_DOUB_CLZ] by simp

section \<open>The precondition of the subtraction\<close>

lemma div_pow2_antimono: "lo \<le> h \<Longrightarrow> (K::nat) div 2 ^ h \<le> K div 2 ^ lo"
  by (intro div_le_mono2 power_increasing) simp_all

lemma doubling_fold_Fib_range:
  assumes "lo \<le> hi" and "hi \<le> 32" and cap: "2 * Fib (Suc (low32 k div 2 ^ lo)) < 10 ^ cap"
  shows "fold (doubling_body cap k) (rev [lo..<hi])
           (Inr (bn_of_nat (Fib (low32 k div 2 ^ hi)), bn_of_nat (Fib (Suc (low32 k div 2 ^ hi)))), c)
         = (Inr (bn_of_nat (Fib (low32 k div 2 ^ lo)), bn_of_nat (Fib (Suc (low32 k div 2 ^ lo)))),
            c + (hi - lo))"
  using assms(1,2)
proof (induction hi arbitrary: c rule: dec_induct)
  case base
  show ?case by simp
next
  case (step h)
  let ?n = "low32 k div 2 ^ Suc h" and ?m = "low32 k div 2 ^ h"
  have h: "h < 32" "h \<le> 32" using step.prems by simp_all
  have m: "?m = 2 * ?n + (if k AND push_bit h 1 \<noteq> 0 then 1 else 0)"
    unfolding bit_test_low32 [OF h(1)] by (rule div_pow2_step)
  have "?m \<le> low32 k div 2 ^ lo" using step.hyps(1) by (rule div_pow2_antimono)
  then have "Fib (Suc ?m) \<le> Fib (Suc (low32 k div 2 ^ lo))"
    by (intro Fib_mono) simp
  then have "2 * Fib (Suc ?m) < 10 ^ cap" using cap by simp
  then have st: "doubling_step cap k h (bn_of_nat (Fib ?n), bn_of_nat (Fib (Suc ?n)))
                     = Inr (bn_of_nat (Fib ?m), bn_of_nat (Fib (Suc ?m)))"
    by (rule doubling_step_Fib [OF m])
  have l: "rev [lo..<Suc h] = h # rev [lo..<h]" using step.hyps(1) by simp
  have d: "Suc (h - lo) = Suc h - lo" using step.hyps(1) by simp
  show ?case
    unfolding l using step.IH [OF h(2), of "Suc c"] by (simp add: st d del: power_Suc)
qed

lemma entering_Fib:
  assumes "low32 k < 2 ^ Suc start" and "Suc start \<le> 32" and "i \<le> start"
    and cap: "2 * Fib (Suc (low32 k div 2 ^ Suc i)) < 10 ^ cap"
  shows "entering cap k start i
           = (Inr (bn_of_nat (Fib (low32 k div 2 ^ Suc i)),
                   bn_of_nat (Fib (Suc (low32 k div 2 ^ Suc i)))), start - i)"
proof -
  have z: "low32 k div 2 ^ Suc start = 0" using assms(1) by (rule div_less)
  have i: "bn_init cap 0 = bn_of_nat (Fib 0)" "bn_init cap 1 = bn_of_nat (Fib (Suc 0))"
    using cap_pos [OF cap] by (simp_all add: bn_init_0 bn_init_1)
  have "Suc i \<le> Suc start" using assms(3) by simp
  from doubling_fold_Fib_range [OF this assms(2) cap, of 0] show ?thesis
    unfolding entering_def i z by simp
qed

lemma entering_loop:
  assumes "i \<le> start"
  shows "doubling_loop cap k start (Inr (bn_init cap 0, bn_init cap 1), 0)
           = fold (doubling_body cap k) (rev [0..<Suc i]) (entering cap k start i)"
proof -
  have "[0..<Suc i + (start - i)] = [0..<Suc i] @ [Suc i..<Suc i + (start - i)]"
    by (rule upt_add_eq_append) simp
  moreover have "Suc i + (start - i) = Suc start" using assms by simp
  ultimately have "rev [0..<Suc start] = rev [Suc i..<Suc start] @ rev [0..<Suc i]"
    by (simp only: rev_append)
  then show ?thesis
    unfolding doubling_loop_def entering_def by (simp only: fold_append comp_apply)
qed

lemma sub_call_safe_Fib:
  assumes "2 * Fib (Suc n) < 10 ^ cap"
  shows "sub_call_safe cap (Inr (bn_of_nat (Fib n), bn_of_nat (Fib (Suc n))), c)"
proof -
  have "bn_add cap (bn_of_nat (Fib (Suc n))) (bn_of_nat (Fib (Suc n))) = bn_of_nat (2 * Fib (Suc n))"
    using bn_add_exact [of "Fib (Suc n)" "Fib (Suc n)" cap] assms by (simp add: mult_2)
  moreover have "Fib n \<le> 2 * Fib (Suc n)" using Fib_mono_Suc [of n] by simp
  ultimately show ?thesis by (simp add: sub_call_safe_def)
qed

lemma dval_take_mod: "decimal ds \<Longrightarrow> dval (take n ds) = dval ds mod 10 ^ n"
proof (induction ds arbitrary: n)
  case Nil
  show ?case by simp
next
  case (Cons d ds)
  show ?case
  proof (cases n)
    case 0
    then show ?thesis by simp
  next
    case (Suc m)
    have d: "d < 10" and ih: "dval (take m ds) = dval ds mod 10 ^ m"
      using Cons by simp_all
    have "(d + 10 * dval ds) mod (10 * 10 ^ m)
            = 10 * ((d + 10 * dval ds) div 10 mod 10 ^ m) + (d + 10 * dval ds) mod 10"
      by (rule mod_mult2_eq)
    then show ?thesis using d by (simp add: Suc ih)
  qed
qed

lemma bn_store_mod:
  assumes "decimal ds"
  shows "bn_store cap ds = bn_of_nat (dval ds mod 10 ^ cap)"
proof -
  have "strip_zeros (take cap ds)
          = (if dval ds mod 10 ^ cap = 0 then [] else nat_digits (dval ds mod 10 ^ cap))"
    using assms by (simp add: strip_zeros_canonical decimal_take dval_take_mod)
  moreover have "nat_digits 0 = [0]" by (subst nat_digits.simps) simp
  moreover have "nat_digits v \<noteq> []" for v by (subst nat_digits.simps) simp
  ultimately show ?thesis by (simp add: bn_store_def bn_of_nat_def Let_def)
qed



section \<open>The length of a product\<close>

lemma nat_digits_length_gt: "10 ^ m \<le> v \<Longrightarrow> m < length (nat_digits v)"
proof (induction v arbitrary: m rule: nat_digits.induct)
  case (1 n)
  show ?case
  proof (cases m)
    case 0
    then show ?thesis using nat_digits_nonempty [of n] by (cases "nat_digits n") simp_all
  next
    case (Suc m')
    then have "10 * 10 ^ m' \<le> n" using "1.prems" by simp
    have "(10::nat) \<le> 10 * 10 ^ m'" by simp
    also have "\<dots> \<le> n" using \<open>10 * 10 ^ m' \<le> n\<close> .
    finally have big: "\<not> n < 10" by simp
    have "10 ^ m' \<le> n div 10"
      using \<open>10 * 10 ^ m' \<le> n\<close> by (simp add: less_eq_div_iff_mult_less_eq mult.commute)
    with big have "m' < length (nat_digits (n div 10))" by (intro "1.IH")
    then show ?thesis using big by (subst nat_digits.simps) (simp add: Suc)
  qed
qed

lemma nat_digits_lower: "0 < v \<Longrightarrow> 10 ^ (length (nat_digits v) - 1) \<le> v"
proof (rule ccontr)
  assume v: "0 < v" and "\<not> 10 ^ (length (nat_digits v) - 1) \<le> v"
  then have lt: "v < 10 ^ (length (nat_digits v) - 1)" by simp
  then have "0 < length (nat_digits v) - 1" using v by (cases "length (nat_digits v) - 1") simp_all
  then have "length (nat_digits v) \<le> length (nat_digits v) - 1"
    using lt by (rule nat_digits_length)
  then show False using \<open>0 < length (nat_digits v) - 1\<close> by simp
qed

text \<open>The product of two operands that are not zero, where it fits the capacity, has
  as many digits as the two operands together, or one less.\<close>

lemma bn_mul_length:
  assumes "0 < v" and "0 < w" and "v * w < 10 ^ cap"
  shows "num_digits (bn_mul cap (bn_of_nat v) (bn_of_nat w))
           \<le> num_digits (bn_of_nat v) + num_digits (bn_of_nat w)"
    and "num_digits (bn_of_nat v) + num_digits (bn_of_nat w)
           \<le> Suc (num_digits (bn_mul cap (bn_of_nat v) (bn_of_nat w)))"
proof -
  let ?la = "length (nat_digits v)" and ?lb = "length (nat_digits w)"
  have la: "0 < ?la" "0 < ?lb" using nat_digits_nonempty by simp_all
  have r: "bn_mul cap (bn_of_nat v) (bn_of_nat w) = bn_of_nat (v * w)"
    using assms(3) by (rule bn_mul_exact)
  have "v < 10 ^ ?la" "w < 10 ^ ?lb"
    using dval_bound [OF decimal_nat_digits, of v] dval_bound [OF decimal_nat_digits, of w]
    by (simp_all add: dval_nat_digits)
  then have "v * w < 10 ^ ?la * 10 ^ ?lb" by (intro mult_strict_mono) simp_all
  then have "v * w < 10 ^ (?la + ?lb)" by (simp add: power_add)
  then have "length (nat_digits (v * w)) \<le> ?la + ?lb"
    using la by (intro nat_digits_length) simp_all
  then show "num_digits (bn_mul cap (bn_of_nat v) (bn_of_nat w))
           \<le> num_digits (bn_of_nat v) + num_digits (bn_of_nat w)"
    by (simp add: r)
  have "10 ^ (?la - 1) * 10 ^ (?lb - 1) \<le> v * w"
    using nat_digits_lower [OF assms(1)] nat_digits_lower [OF assms(2)] by (rule mult_le_mono)
  then have "10 ^ (?la - 1 + (?lb - 1)) \<le> v * w" by (simp add: power_add)
  then have "?la - 1 + (?lb - 1) < length (nat_digits (v * w))"
    by (rule nat_digits_length_gt)
  then show "num_digits (bn_of_nat v) + num_digits (bn_of_nat w)
           \<le> Suc (num_digits (bn_mul cap (bn_of_nat v) (bn_of_nat w)))"
    using la by (simp add: r)
qed

section \<open>Results in canonical form\<close>

lemma bn_init_mod: "bn_init cap v = bn_of_nat (v mod 10 ^ cap)"
  by (simp add: bn_init_def bn_store_mod decimal_nat_digits dval_nat_digits)



lemma canonical_bn_of_nat [simp]: "canonical (bn_of_nat v)"
  by (simp add: canonical_def)


lemma canonical_bn_init [simp]: "canonical (bn_init cap v)"
  by (simp add: bn_init_mod)





lemma doubling_step_defined:
  assumes "bn_val (fst ab) \<le> bn_val (bn_add cap (snd ab) (snd ab))"
  shows "\<exists>ab'. doubling_step cap k i ab = Inr ab'"
proof -
  obtain tmp2 where "bn_sub cap (bn_add cap (snd ab) (snd ab)) (fst ab) = Inr tmp2"
    using assms by (simp add: bn_sub_def)
  then show ?thesis by (simp add: doubling_step_def Let_def)
qed








section \<open>Formatting a result\<close>












section \<open>The doubling loops within the capacity\<close>

lemma entering_exact:
  assumes "low32 k < 2 ^ Suc start" and "Suc start \<le> 32" and "i \<le> start"
    and cap: "2 * Fib (Suc (low32 k div 2)) < 10 ^ cap"
  shows "entering cap k start i
           = (Inr (bn_of_nat (Fib (low32 k div 2 ^ Suc i)),
                   bn_of_nat (Fib (Suc (low32 k div 2 ^ Suc i)))), start - i)"
    and "sub_call_safe cap (entering cap k start i)"
proof -
  have "low32 k div 2 ^ Suc i \<le> low32 k div 2 ^ 1"
    by (rule div_pow2_antimono) simp
  then have "Fib (Suc (low32 k div 2 ^ Suc i)) \<le> Fib (Suc (low32 k div 2))"
    by (intro Fib_mono) simp
  then have c: "2 * Fib (Suc (low32 k div 2 ^ Suc i)) < 10 ^ cap" using cap by simp
  show e: "entering cap k start i
           = (Inr (bn_of_nat (Fib (low32 k div 2 ^ Suc i)),
                   bn_of_nat (Fib (Suc (low32 k div 2 ^ Suc i)))), start - i)"
    using assms(1-3) c by (rule entering_Fib)
  show "sub_call_safe cap (entering cap k start i)"
    unfolding e using c by (rule sub_call_safe_Fib)
qed

lemma doubling_loop_defined:
  assumes "low32 k < 2 ^ Suc start" and "Suc start \<le> 32"
    and cap: "2 * Fib (Suc (low32 k div 2)) < 10 ^ cap"
  shows "\<exists>ab. fst (doubling_loop cap k start (Inr (bn_init cap 0, bn_init cap 1), 0)) = Inr ab"
proof -
  let ?n = "low32 k div 2 ^ Suc 0"
  let ?ab = "(bn_of_nat (Fib ?n), bn_of_nat (Fib (Suc ?n)))"
  have e: "entering cap k start 0 = (Inr ?ab, start - 0)"
    using assms(1,2) _ cap by (rule entering_exact) simp
  have "sub_call_safe cap (entering cap k start 0)"
    using assms(1,2) _ cap by (rule entering_exact) simp
  then have "bn_val (fst ?ab) \<le> bn_val (bn_add cap (snd ?ab) (snd ?ab))"
    unfolding e by (simp add: sub_call_safe_def)
  then obtain ab' where s: "doubling_step cap k 0 ?ab = Inr ab'"
    using doubling_step_defined by blast
  have "doubling_loop cap k start (Inr (bn_init cap 0, bn_init cap 1), 0)
          = fold (doubling_body cap k) (rev [0..<Suc 0]) (entering cap k start 0)"
    by (rule entering_loop) simp
  also have "\<dots> = (Inr ab', Suc start)"
    unfolding e using s by simp
  finally show ?thesis by simp
qed

lemma fib_double_defined:
  assumes cap: "2 * Fib (Suc (low32 k div 2)) < 10 ^ cap"
  shows "\<exists>r. fib_double cap k = Inr r"
proof (cases "k = 0 \<or> k = 1")
  case True
  then show ?thesis by (auto simp: fib_double_def fib_double_run_def)
next
  case False
  then have k: "k \<noteq> 0" "k \<noteq> 1" by simp_all
  have "low32 k < 2 ^ Suc 31" using low32_less [of k] by simp
  then obtain ab where
    "fst (doubling_loop cap k 31 (Inr (bn_init cap 0, bn_init cap 1), 0)) = Inr ab"
    using doubling_loop_defined [of k 31 cap] cap by auto
  then show ?thesis
    unfolding fib_double_def fib_double_run_loop [OF k] by simp
qed



lemma Fib_76: "Fib 76 = 3416454622906707"
  by (simp add: Fib_eval)

lemma capacity_supported:
  assumes "Fib 150 < 10 ^ cap" and "0 \<le> sint k" and "sint k \<le> 150"
  shows "2 * Fib (Suc (low32 k div 2)) < 10 ^ cap"
    and "k = 0 \<or> (ucast k :: 32 word) \<noteq> 0"
proof -
  define n where "n = nat (sint k)"
  have k: "k = of_nat n" using assms(2) word_of_sint [of k] by (simp add: n_def)
  have n: "n \<le> 150" using assms(3) by (simp add: n_def)
  then have n32: "n < 2 ^ 32" by simp
  have l: "low32 k = n" unfolding k using n32 by (rule low32_of_nat)
  have "Suc (n div 2) \<le> 76" using n by simp
  then have "Fib (Suc (n div 2)) \<le> Fib 76" by (rule Fib_mono)
  then have "2 * Fib (Suc (n div 2)) \<le> Fib 150" by (simp add: Fib_76 Fib_150)
  then show "2 * Fib (Suc (low32 k div 2)) < 10 ^ cap" using assms(1) by (simp add: l)
  show "k = 0 \<or> (ucast k :: 32 word) \<noteq> 0"
  proof (cases "n = 0")
    case True
    then show ?thesis by (simp add: k)
  next
    case False
    then have "(ucast (of_nat n :: 64 word) :: 32 word) \<noteq> 0"
      using n32 by (intro ucast_of_nat_nonzero) simp_all
    then show ?thesis by (simp add: k)
  qed
qed



text \<open>
  Claim C6, as amended. For every \<open>k\<close> that is 0 or whose low 32 bits are not all zero
  (every \<open>k\<close> from 0 to \<open>2^32 - 1\<close> is one): whenever one of \<open>fib_double\<close> and
  \<open>fib_double_clz\<close> returns a big number, the other returns the same big number; and
  both return one whenever the capacity holds the minuend of the last iteration, which
  every capacity that holds \<open>F(150)\<close> does for every index from 0 to 150. The iterations
  that \<open>fib_double\<close> executes in addition are those for the zero bits above the highest
  set bit, and they leave \<open>(a, b) = (0, 1)\<close> as it is.
\<close>

theorem doubling_variants_agree:
  assumes "k = 0 \<or> (ucast k :: 32 word) \<noteq> 0"
  shows "(0 < cap \<longrightarrow> (\<forall>r. fib_double cap k = Inr r \<longleftrightarrow> fib_double_clz cap k = Inr r))
         \<and> (2 * Fib (Suc (low32 k div 2)) < 10 ^ cap \<longrightarrow>
              (\<exists>r. fib_double cap k = Inr r \<and> fib_double_clz cap k = Inr r))
         \<and> (Fib 150 < 10 ^ cap \<and> 0 \<le> sint k \<and> sint k \<le> 150 \<longrightarrow>
              (\<exists>r. fib_double cap k = Inr r \<and> fib_double_clz cap k = Inr r))"
proof -
  have eq: "fib_double cap k = fib_double_clz cap k" if "0 < cap"
    using that assms by (rule doubling_results_equal)
  have both: "\<exists>r. fib_double cap k = Inr r \<and> fib_double_clz cap k = Inr r"
    if cap: "2 * Fib (Suc (low32 k div 2)) < 10 ^ cap"
  proof -
    have "0 < cap" using cap by (rule cap_pos)
    then show ?thesis using fib_double_defined [OF cap] eq by auto
  qed
  have "\<exists>r. fib_double cap k = Inr r \<and> fib_double_clz cap k = Inr r"
    if "Fib 150 < 10 ^ cap \<and> 0 \<le> sint k \<and> sint k \<le> 150"
    using that by (intro both capacity_supported) simp_all
  then show ?thesis using eq both by auto
qed

theorem doubling_variants_agree_witness:
  "(ucast (150 :: 64 word) :: 32 word) \<noteq> 0
   \<and> (0::nat) < 32
   \<and> 2 * Fib (Suc (low32 150 div 2)) < 10 ^ 32
   \<and> Fib 150 < 10 ^ 32 \<and> 0 \<le> sint (150 :: 64 word) \<and> sint (150 :: 64 word) \<le> 150
   \<and> fib_double 32 150 = Inr (bn_of_nat (Fib 150))
   \<and> fib_double_clz 32 150 = Inr (bn_of_nat (Fib 150))"
proof -
  have s: "(0::nat) < 32" "Fib 150 < 10 ^ 32" "0 \<le> sint (150 :: 64 word)"
    "sint (150 :: 64 word) \<le> 150"
    by (simp_all add: Fib_150)
  have nz: "(ucast (150 :: 64 word) :: 32 word) \<noteq> 0" by simp
  have l: "low32 150 = 150" using low32_of_nat [of 150] by simp
  have h: "2 * Fib (Suc (low32 150 div 2)) < 10 ^ 32" by (simp add: l Fib_76)
  have d: "fib_double 32 150 = Inr (bn_of_nat (Fib 150))"
    using strategies_exact(2) [of 32 150] by simp
  from doubling_variants_agree [of 150 32] nz h
  obtain r where "fib_double 32 150 = Inr r" "fib_double_clz 32 150 = Inr r" by auto
  with d have "fib_double_clz 32 150 = Inr (bn_of_nat (Fib 150))" by simp
  with nz h d s show ?thesis by (intro conjI)
qed

text \<open>
  The claim C6 as it is stated, for every non-negative \<open>k\<close>, fails at \<open>k = 2^32\<close>: the low
  32 bits of \<open>k\<close> are zero, so \<open>fib_double\<close> scans 32 zero bits and returns 0, while
  \<open>fib_double_clz\<close> calls \<open>__builtin_clz\<close> with 0, whose result is not defined.
\<close>

theorem doubling_variants_differ:
  "fib_double 32 4294967296 = Inr \<lparr>num_digits = 1, digits = [0]\<rparr>
   \<and> fib_double_clz 32 4294967296 = Inl Clz_Undefined"
proof -
  have l: "low32 4294967296 = 0" by (simp add: low32_def)
  have "2 * Fib (Suc (low32 4294967296)) < 10 ^ 32" by (simp add: l)
  then have "fib_double_run 32 4294967296 = (Inr (bn_of_nat (Fib (low32 4294967296))), 32)"
    by (intro fib_double_run_exact) simp_all
  then have "fib_double 32 4294967296 = Inr \<lparr>num_digits = 1, digits = [0]\<rparr>"
    by (simp add: fib_double_def l bn_of_nat_def nat_digits.simps)
  moreover have "fib_double_clz 32 4294967296 = Inl Clz_Undefined"
    by (simp add: fib_double_clz_def fib_double_clz_run_def builtin_clz_def)
  ultimately show ?thesis by simp
qed

end
